theory Spec2Isabelle
  imports Main "HOL-Library.Word" "HOL-Library.Monad_Syntax"
begin

section \<open>Data model of \<open>RingBuffer\<close>\<close>

text \<open>
  \<open>SIZE_T\<close> is taken at its width on x64 Windows, where it coincides with
  \<open>ULONGLONG\<close>: both are unsigned 64-bit words, and all arithmetic wraps.
  A pointer to bytes is modelled as the memory region it points to, read by offset
  from the pointer; \<open>NULL\<close> is \<open>None\<close>.  A result of \<open>None\<close> stands for a run
  that does not return normally (division by zero, access through \<open>NULL\<close>, a loop
  that never ends).
\<close>

type_synonym BYTE = "8 word"
type_synonym SIZE_T = "64 word"
type_synonym ULONGLONG = "64 word"
type_synonym memory = "nat \<Rightarrow> BYTE"

datatype NTSTATUS =
    STATUS_SUCCESS
  | STATUS_INSUFFICIENT_RESOURCES
  | STATUS_BUFFER_TOO_SMALL
  | STATUS_BUFFER_OVERFLOW
  | STATUS_DEVICE_NOT_READY

record RingBuffer =
  m_BufferLock :: bool \<comment> \<open>\<open>True\<close>: the spin lock has been allocated (pointer is not \<open>NULL\<close>)\<close>
  m_Buffer :: "memory option"
  m_BufferLength :: SIZE_T
  m_IsFilling :: bool
  m_LinearBufferReadPosition :: ULONGLONG
  m_LinearBufferWritePosition :: ULONGLONG

text \<open>The calls that \<open>Init\<close> makes to the pool allocator, in the order made.\<close>

datatype pool_call = NewSpinLock | ExFreePoolWithTag | ExAllocatePoolWithTag SIZE_T

text \<open>
  The constructor does not initialise \<open>m_BufferLock\<close>; its initial value is a
  parameter.
\<close>

definition RingBuffer_ctor :: "bool \<Rightarrow> RingBuffer" where
  "RingBuffer_ctor lock0 =
     \<lparr>m_BufferLock = lock0, m_Buffer = None, m_BufferLength = 0, m_IsFilling = True,
      m_LinearBufferReadPosition = 0, m_LinearBufferWritePosition = 0\<rparr>"

text \<open>\<open>RtlCopyMemory (dst + d, src + s, n)\<close> and \<open>RtlZeroMemory (dst, n)\<close>.\<close>

definition RtlCopyMemory :: "memory \<Rightarrow> nat \<Rightarrow> memory \<Rightarrow> nat \<Rightarrow> nat \<Rightarrow> memory" where
  "RtlCopyMemory dst d src s n = (\<lambda>i. if d \<le> i \<and> i < d + n then src (s + (i - d)) else dst i)"

definition RtlZeroMemory :: "memory \<Rightarrow> nat \<Rightarrow> memory" where
  "RtlZeroMemory dst n = (\<lambda>i. if i < n then 0 else dst i)"

text \<open>The operator \<open>%\<close> on unsigned 64-bit values; a zero divisor traps.\<close>

definition umod :: "64 word \<Rightarrow> 64 word \<Rightarrow> 64 word option" where
  "umod a b = (if b = 0 then None else Some (a mod b))"

section \<open>Operations\<close>

subsection \<open>\<open>Init\<close>\<close>

text \<open>
  \<open>lock_alloc\<close> tells whether \<open>new KSPIN_LOCK\<close> succeeds (consulted only when the
  lock is still \<open>NULL\<close>); \<open>pool_alloc\<close> is what \<open>ExAllocatePoolWithTag\<close> returns:
  \<open>None\<close> for \<open>NULL\<close>, otherwise the fresh region with whatever it contains.
\<close>

definition Init ::
  "RingBuffer \<Rightarrow> SIZE_T \<Rightarrow> bool \<Rightarrow> memory option \<Rightarrow> NTSTATUS \<times> RingBuffer \<times> pool_call list" where
  "Init s bufferSize lock_alloc pool_alloc =
     (if \<not> m_BufferLock s \<and> \<not> lock_alloc then (STATUS_INSUFFICIENT_RESOURCES, s, [NewSpinLock])
      else
        let c1 = (if \<not> m_BufferLock s then [NewSpinLock] else []);
            s1 = s\<lparr>m_BufferLock := True\<rparr>;
            c2 = (if m_Buffer s1 \<noteq> None then [ExFreePoolWithTag] else []);
            s2 = (if m_Buffer s1 \<noteq> None then s1\<lparr>m_Buffer := None\<rparr> else s1);
            c3 = [ExAllocatePoolWithTag bufferSize];
            s3 = s2\<lparr>m_Buffer := pool_alloc\<rparr>
        in if m_Buffer s3 = None then (STATUS_INSUFFICIENT_RESOURCES, s3, c1 @ c2 @ c3)
           else (STATUS_SUCCESS,
                 s3\<lparr>m_BufferLength := bufferSize,
                    m_LinearBufferWritePosition := 0,
                    m_LinearBufferReadPosition := 0,
                    m_IsFilling := True\<rparr>,
                 c1 @ c2 @ c3))"

subsection \<open>\<open>Put\<close>\<close>

text \<open>Lines 70 to 76: the overrun test, which moves the read position forward.\<close>

definition Put_overrun :: "RingBuffer \<Rightarrow> SIZE_T \<Rightarrow> NTSTATUS \<times> RingBuffer" where
  "Put_overrun s count =
     (if (m_LinearBufferWritePosition s + count) - m_LinearBufferReadPosition s > m_BufferLength s
      then (STATUS_BUFFER_OVERFLOW,
            s\<lparr>m_LinearBufferReadPosition :=
                 (m_LinearBufferWritePosition s + count) - m_BufferLength s + 1\<rparr>)
      else (STATUS_SUCCESS, s))"

text \<open>
  Lines 80 to 87: the copy loop.  Every run copies from \<open>pBytes\<close> itself: the source
  pointer is not advanced by \<open>bytesWritten\<close>.
\<close>

partial_function (option) Put_loop ::
  "SIZE_T \<Rightarrow> memory \<Rightarrow> memory \<Rightarrow> SIZE_T \<Rightarrow> SIZE_T \<Rightarrow> SIZE_T \<Rightarrow> (memory \<times> SIZE_T) option" where
  "Put_loop len buf pBytes bufferOffset count bytesWritten =
     (if count > 0 then
        (let runWrite = min count (len - bufferOffset);
             buf' = RtlCopyMemory buf (unat bufferOffset) pBytes 0 (unat runWrite)
         in umod (bufferOffset + runWrite) len \<bind> (\<lambda>bufferOffset'.
              Put_loop len buf' pBytes bufferOffset' (count - runWrite) (bytesWritten + runWrite)))
      else Some (buf, bytesWritten))"

text \<open>Lines 90 to 94: leaving the filling state.\<close>

definition Put_latch :: "RingBuffer \<Rightarrow> RingBuffer" where
  "Put_latch s =
     (if m_IsFilling s \<and>
         m_LinearBufferWritePosition s - m_LinearBufferReadPosition s > m_BufferLength s div 2
      then s\<lparr>m_IsFilling := False\<rparr> else s)"

text \<open>Lines 78 to 95: copy, advance the write position, latch.\<close>

definition Put_copy :: "RingBuffer \<Rightarrow> memory \<Rightarrow> SIZE_T \<Rightarrow> RingBuffer option" where
  "Put_copy s pBytes count =
     umod (m_LinearBufferWritePosition s) (m_BufferLength s) \<bind> (\<lambda>bufferOffset.
     m_Buffer s \<bind> (\<lambda>buf.
     Put_loop (m_BufferLength s) buf pBytes bufferOffset count 0 \<bind> (\<lambda>(buf', bytesWritten).
     Some (Put_latch
       (s\<lparr>m_Buffer := Some buf',
          m_LinearBufferWritePosition := m_LinearBufferWritePosition s + bytesWritten\<rparr>)))))"

definition Put :: "RingBuffer \<Rightarrow> memory \<Rightarrow> SIZE_T \<Rightarrow> (NTSTATUS \<times> RingBuffer) option" where
  "Put s pBytes count =
     (if count > m_BufferLength s then Some (STATUS_BUFFER_TOO_SMALL, s)
      else if count = 0 then Some (STATUS_SUCCESS, s)
      else case Put_overrun s count of (status, s1) \<Rightarrow>
        map_option (\<lambda>s2. (status, s2)) (Put_copy s1 pBytes count))"

subsection \<open>\<open>Take\<close>\<close>

text \<open>
  Lines 115 to 122.  The target pointer is advanced by \<open>bytesRead\<close>.  The storage is
  dereferenced only when a run is copied.
\<close>

partial_function (option) Take_loop ::
  "SIZE_T \<Rightarrow> memory option \<Rightarrow> memory \<Rightarrow> SIZE_T \<Rightarrow> SIZE_T \<Rightarrow> SIZE_T \<Rightarrow> (memory \<times> SIZE_T) option" where
  "Take_loop len buf pTarget bufferOffset count bytesRead =
     (if count > 0 then
        (let runWrite = min count (len - bufferOffset)
         in buf \<bind> (\<lambda>b.
            umod (bufferOffset + runWrite) len \<bind> (\<lambda>bufferOffset'.
              Take_loop len buf
                (RtlCopyMemory pTarget (unat bytesRead) b (unat bufferOffset) (unat runWrite))
                bufferOffset' (count - runWrite) (bytesRead + runWrite))))
      else Some (pTarget, bytesRead))"

text \<open>
  \<open>readCount\<close> is the optional out-parameter: \<open>None\<close> for a \<open>NULL\<close> pointer,
  otherwise the value stored at it.  The result holds the status, the buffer, the
  target memory and the out-parameter after the call.  Acquiring the lock through a
  \<open>NULL\<close> lock pointer does not return.
\<close>

definition Take ::
  "RingBuffer \<Rightarrow> memory \<Rightarrow> SIZE_T \<Rightarrow> SIZE_T option \<Rightarrow>
     (NTSTATUS \<times> RingBuffer \<times> memory \<times> SIZE_T option) option" where
  "Take s pTarget count readCount =
     (if \<not> m_BufferLock s then None
      else if m_IsFilling s
        then Some (STATUS_DEVICE_NOT_READY, s, pTarget, map_option (\<lambda>_. 0) readCount)
      else
        let count' = min count (m_LinearBufferWritePosition s - m_LinearBufferReadPosition s)
        in umod (m_LinearBufferReadPosition s) (m_BufferLength s) \<bind> (\<lambda>bufferOffset.
           Take_loop (m_BufferLength s) (m_Buffer s) pTarget bufferOffset count' 0 \<bind>
             (\<lambda>(pTarget', bytesRead).
               let s1 = s\<lparr>m_LinearBufferReadPosition := m_LinearBufferReadPosition s + bytesRead\<rparr>;
                   s2 = (if m_LinearBufferWritePosition s1 - m_LinearBufferReadPosition s1 = 0
                         then s1\<lparr>m_IsFilling := True\<rparr> else s1)
               in Some (STATUS_SUCCESS, s2, pTarget', map_option (\<lambda>_. bytesRead) readCount))))"

subsection \<open>\<open>GetSize\<close>, \<open>GetAvailableBytes\<close>, \<open>Clear\<close>\<close>

definition GetSize :: "RingBuffer \<Rightarrow> SIZE_T" where
  "GetSize s = m_BufferLength s"

definition GetAvailableBytes :: "RingBuffer \<Rightarrow> SIZE_T" where
  "GetAvailableBytes s =
     (if m_IsFilling s then 0
      else m_LinearBufferWritePosition s - m_LinearBufferReadPosition s)"

definition Clear :: "RingBuffer \<Rightarrow> RingBuffer option" where
  "Clear s =
     (if \<not> m_BufferLock s then None
      else if m_BufferLength s \<noteq> 0 \<and> m_Buffer s = None then None
      else Some (s\<lparr>m_Buffer := map_option (\<lambda>b. RtlZeroMemory b (unat (m_BufferLength s))) (m_Buffer s),
                   m_IsFilling := True,
                   m_LinearBufferReadPosition := 0,
                   m_LinearBufferWritePosition := 0\<rparr>))"

subsection \<open>The destructor\<close>

text \<open>
  Lines 12 to 28.  Storage is freed under the lock, and with it \<open>m_Buffer\<close> and
  \<open>m_BufferLength\<close> are reset; then the lock itself is freed.
\<close>

definition RingBuffer_dtor :: "RingBuffer \<Rightarrow> RingBuffer option" where
  "RingBuffer_dtor s =
     (if m_Buffer s \<noteq> None \<and> \<not> m_BufferLock s then None
      else
        let s1 = (if m_Buffer s \<noteq> None then s\<lparr>m_Buffer := None, m_BufferLength := 0\<rparr> else s)
        in Some (if m_BufferLock s1 then s1\<lparr>m_BufferLock := False\<rparr> else s1))"

section \<open>Reachable states\<close>


definition ring_invariant :: "RingBuffer \<Rightarrow> bool" where
  "ring_invariant s \<longleftrightarrow>
     m_BufferLock s \<and> m_Buffer s \<noteq> None \<and>
     m_LinearBufferReadPosition s \<le> m_LinearBufferWritePosition s \<and>
     m_LinearBufferWritePosition s - m_LinearBufferReadPosition s \<le> m_BufferLength s \<and>
     (\<not> m_IsFilling s \<longrightarrow> m_BufferLength s \<noteq> 0) \<and>
     (\<not> m_IsFilling s \<longrightarrow> 2 \<le> m_BufferLength s \<longrightarrow>
        1 \<le> m_LinearBufferWritePosition s - m_LinearBufferReadPosition s)"

text \<open>A caller's byte array as memory, for stating examples.\<close>

definition bytes :: "BYTE list \<Rightarrow> memory" where
  "bytes xs = (\<lambda>i. if i < length xs then xs ! i else 0)"


section \<open>The buffer as a queue of bytes\<close>

text \<open>
  The unread bytes of a buffer, oldest first: the storage read from the read position
  up to the write position, every position taken modulo the capacity.
\<close>

definition unread :: "RingBuffer \<Rightarrow> BYTE list" where
  "unread s =
     (case m_Buffer s of
        None \<Rightarrow> []
      | Some b \<Rightarrow>
          map (\<lambda>i. b ((unat (m_LinearBufferReadPosition s) + i) mod unat (m_BufferLength s)))
            [0..<unat (m_LinearBufferWritePosition s - m_LinearBufferReadPosition s)])"

text \<open>
  A sequence of calls made one after the other.  \<open>run_calls\<close> executes it and
  records the bytes handed to every \<open>Put\<close> that was not rejected (\<open>put\<close>) and the
  bytes every \<open>Take\<close> reported through \<open>readCount\<close> (\<open>taken\<close>).
\<close>

datatype call = CallPut memory SIZE_T | CallTake SIZE_T

fun run_calls ::
  "RingBuffer \<Rightarrow> BYTE list \<Rightarrow> BYTE list \<Rightarrow> call list \<Rightarrow> (RingBuffer \<times> BYTE list \<times> BYTE list) option" where
  "run_calls s put taken [] = Some (s, put, taken)"
| "run_calls s put taken (CallPut pBytes count # cs) =
     (case Put s pBytes count of
        None \<Rightarrow> None
      | Some (status, s') \<Rightarrow>
          run_calls s'
            (if status = STATUS_BUFFER_TOO_SMALL then put else put @ map pBytes [0..<unat count])
            taken cs)"
| "run_calls s put taken (CallTake count # cs) =
     (case Take s (\<lambda>_. 0) count (Some 0) of
        None \<Rightarrow> None
      | Some (status, s', pTarget', readCount') \<Rightarrow>
          run_calls s' put
            (taken @ map pTarget' [0..<unat (case readCount' of None \<Rightarrow> 0 | Some n \<Rightarrow> n)])
            cs)"

definition stream_invariant :: "SIZE_T \<Rightarrow> RingBuffer \<Rightarrow> BYTE list \<Rightarrow> BYTE list \<Rightarrow> bool" where
  "stream_invariant capacity s put taken \<longleftrightarrow>
     ring_invariant s \<and> m_BufferLength s = capacity \<and>
     unat (m_LinearBufferWritePosition s) = length put \<and>
     put = taken @ unread s"

section \<open>Copying with wrap-around\<close>

lemma RtlCopyMemory_0 [simp]: "RtlCopyMemory dst d src s 0 = dst"
  by (auto simp add: RtlCopyMemory_def fun_eq_iff)

lemma umod_Some: "b \<noteq> 0 \<Longrightarrow> umod a b = Some (a mod b)"
  by (simp add: umod_def)

lemma Put_loop_0: "Put_loop len buf p off 0 bw = Some (buf, bw)"
  by (subst Put_loop.simps) simp

lemma Put_loop_step:
  "count \<noteq> 0 \<Longrightarrow> len \<noteq> 0 \<Longrightarrow>
   Put_loop len buf p off count bw =
     Put_loop len (RtlCopyMemory buf (unat off) p 0 (unat (min count (len - off)))) p
       ((off + min count (len - off)) mod len) (count - min count (len - off))
       (bw + min count (len - off))"
  by (subst Put_loop.simps) (simp add: umod_Some Let_def word_neq_0_conv)

lemma Put_loop_one_run:
  assumes "len \<noteq> 0" "off < len" "count \<le> len - off"
  shows "Put_loop len buf p off count bw =
           Some (RtlCopyMemory buf (unat off) p 0 (unat count), bw + count)"
proof (cases "count = 0")
  case True
  then show ?thesis by (simp add: Put_loop_0)
next
  case False
  with assms show ?thesis
    by (simp add: Put_loop_step min_absorb1 Put_loop_0)
qed

lemma Put_loop_two_runs:
  assumes "len \<noteq> 0" "off < len" "count \<le> len" "\<not> count \<le> len - off"
  shows "Put_loop len buf p off count bw =
           Some (RtlCopyMemory (RtlCopyMemory buf (unat off) p 0 (unat (len - off))) 0 p 0
                   (unat (count - (len - off))), bw + count)"
proof -
  have c0: "count \<noteq> 0" using assms by auto
  have m: "min count (len - off) = len - off" using assms by (simp add: min_def)
  have r: "count - (len - off) \<le> len - 0" using assms by unat_arith
  have "Put_loop len buf p off count bw =
        Put_loop len (RtlCopyMemory buf (unat off) p 0 (unat (len - off))) p 0
          (count - (len - off)) (bw + (len - off))"
    using assms c0 by (simp add: Put_loop_step m)
  also have "\<dots> = Some (RtlCopyMemory (RtlCopyMemory buf (unat off) p 0 (unat (len - off))) 0 p 0
                   (unat (count - (len - off))), bw + (len - off) + (count - (len - off)))"
    using Put_loop_one_run[OF assms(1) _ r] assms(1) by (simp add: word_neq_0_conv)
  finally show ?thesis by simp
qed

lemma Take_loop_0: "Take_loop len buf t off 0 br = Some (t, br)"
  by (subst Take_loop.simps) simp

lemma Take_loop_step:
  "count \<noteq> 0 \<Longrightarrow> len \<noteq> 0 \<Longrightarrow>
   Take_loop len (Some b) t off count br =
     Take_loop len (Some b)
       (RtlCopyMemory t (unat br) b (unat off) (unat (min count (len - off))))
       ((off + min count (len - off)) mod len) (count - min count (len - off))
       (br + min count (len - off))"
  by (subst Take_loop.simps) (simp add: umod_Some Let_def word_neq_0_conv)

lemma run_facts:
  fixes len off count :: "64 word"
  assumes "off < len" "count \<noteq> 0"
  defines "run \<equiv> min count (len - off)"
  shows "run \<le> count" and "unat run \<noteq> 0" and "unat off + unat run \<le> unat len"
    and "unat ((off + run) mod len) = (unat off + unat run) mod unat len"
    and "unat (count - run) = unat count - unat run"
    and "unat run \<le> unat count"
proof -
  have ol: "unat off < unat len" using assms(1) by (simp add: word_less_nat_alt)
  have d: "unat (len - off) = unat len - unat off"
    using assms(1) by (simp add: unat_sub)
  have c: "unat count \<noteq> 0" using assms(2) by (simp add: unat_eq_0)
  have r: "unat run = min (unat count) (unat len - unat off)"
    unfolding run_def min_def using d by (simp add: word_le_nat_alt)
  show rc: "run \<le> count" by (simp add: run_def)
  show "unat run \<noteq> 0" using r c ol by simp
  show rl: "unat off + unat run \<le> unat len" using r ol by simp
  have "unat off + unat run < 2 ^ 64"
    using rl unsigned_less[of len, where 'a=nat] by simp
  then have "unat (off + run) = unat off + unat run"
    by (simp add: unat_add_lem[THEN iffD1])
  then show "unat ((off + run) mod len) = (unat off + unat run) mod unat len"
    by (simp add: unat_mod)
  show "unat (count - run) = unat count - unat run"
    using rc by (simp add: unat_sub)
  show "unat run \<le> unat count" using r by simp
qed

lemma Take_loop_result:
  assumes "len \<noteq> 0" "off < len" "unat br + unat count < 2 ^ 64"
  shows "Take_loop len (Some b) t off count br =
           Some (\<lambda>i. if unat br \<le> i \<and> i < unat br + unat count
                      then b ((unat off + (i - unat br)) mod unat len) else t i,
                 br + count)"
  using assms
proof (induction "unat count" arbitrary: count off br t rule: less_induct)
  case less
  show ?case
  proof (cases "count = 0")
    case True
    then show ?thesis by (auto simp add: Take_loop_0 fun_eq_iff)
  next
    case False
    define run where "run = min count (len - off)"
    note rf = run_facts[OF less.prems(2) False, folded run_def]
    have lt: "(off + run) mod len < len"
      using less.prems(1) by (simp add: word_mod_less_divisor word_neq_0_conv)
    have br': "unat (br + run) = unat br + unat run"
      using less.prems(3) rf(6) by (simp add: unat_add_lem[THEN iffD1])
    have smaller: "unat (count - run) < unat count"
      using rf(2,5,6) by simp
    have bound: "unat (br + run) + unat (count - run) < 2 ^ 64"
      using less.prems(3) rf(5,6) br' by simp
    have "Take_loop len (Some b) t off count br =
          Take_loop len (Some b) (RtlCopyMemory t (unat br) b (unat off) (unat run))
            ((off + run) mod len) (count - run) (br + run)"
      using False less.prems(1) by (simp add: Take_loop_step run_def)
    also have "\<dots> = Some (\<lambda>i. if unat (br + run) \<le> i \<and> i < unat (br + run) + unat (count - run)
                      then b ((unat ((off + run) mod len) + (i - unat (br + run))) mod unat len)
                      else RtlCopyMemory t (unat br) b (unat off) (unat run) i,
                 (br + run) + (count - run))"
      by (rule less.hyps[OF smaller less.prems(1) lt bound])
    also have "\<dots> = Some (\<lambda>i. if unat br \<le> i \<and> i < unat br + unat count
                      then b ((unat off + (i - unat br)) mod unat len) else t i,
                 br + count)"
    proof -
      have "(if unat br + unat run \<le> i \<and> i < unat br + unat run + (unat count - unat run)
             then b (((unat off + unat run) mod unat len + (i - (unat br + unat run))) mod unat len)
             else RtlCopyMemory t (unat br) b (unat off) (unat run) i) =
            (if unat br \<le> i \<and> i < unat br + unat count
             then b ((unat off + (i - unat br)) mod unat len) else t i)" for i
      proof -
        consider "i < unat br" | "unat br \<le> i" "i < unat br + unat run"
          | "unat br + unat run \<le> i" "i < unat br + unat count" | "unat br + unat count \<le> i"
          by linarith
        then show ?thesis
        proof cases
          case 1
          then show ?thesis by (simp add: RtlCopyMemory_def)
        next
          case 2
          have "unat off + (i - unat br) < unat len" using 2 rf(3) by linarith
          then show ?thesis using 2 rf(6) by (simp add: RtlCopyMemory_def)
        next
          case 3
          have "(unat off + unat run) mod unat len + (i - (unat br + unat run)) =
                (unat off + unat run) mod unat len + (i - (unat br + unat run))" by simp
          have e: "unat off + unat run + (i - (unat br + unat run)) = unat off + (i - unat br)"
            using 3 by linarith
          have "((unat off + unat run) mod unat len + (i - (unat br + unat run))) mod unat len =
                (unat off + unat run + (i - (unat br + unat run))) mod unat len"
            by (rule mod_add_left_eq)
          then show ?thesis using 3 rf(6) e by simp
        next
          case 4
          then show ?thesis using rf(6) by (simp add: RtlCopyMemory_def)
        qed
      qed
      then show ?thesis
        by (simp only: br' rf(4) rf(5) add_diff_cancel_left' add.assoc[symmetric]) simp
    qed
    finally show ?thesis .
  qed
qed

lemma Put_loop_result:
  assumes "len \<noteq> 0" "off < len" "count \<le> len"
  shows "Put_loop len buf p off count bw =
           Some (if count \<le> len - off then RtlCopyMemory buf (unat off) p 0 (unat count)
                 else RtlCopyMemory (RtlCopyMemory buf (unat off) p 0 (unat (len - off))) 0 p 0
                        (unat (count - (len - off))),
                 bw + count)"
  using assms by (simp add: Put_loop_one_run Put_loop_two_runs)


section \<open>What \<open>Put\<close> and \<open>Take\<close> return\<close>

lemma Put_copy_result:
  assumes "m_Buffer s = Some b" "count \<le> m_BufferLength s" "m_BufferLength s \<noteq> 0"
  shows "Put_copy s p count =
         Some (Put_latch
           (s\<lparr>m_Buffer := Some
                (if count \<le> m_BufferLength s - m_LinearBufferWritePosition s mod m_BufferLength s
                 then RtlCopyMemory b (unat (m_LinearBufferWritePosition s mod m_BufferLength s)) p 0
                        (unat count)
                 else RtlCopyMemory
                        (RtlCopyMemory b (unat (m_LinearBufferWritePosition s mod m_BufferLength s)) p 0
                           (unat (m_BufferLength s - m_LinearBufferWritePosition s mod m_BufferLength s)))
                        0 p 0
                        (unat (count - (m_BufferLength s -
                                 m_LinearBufferWritePosition s mod m_BufferLength s)))),
              m_LinearBufferWritePosition := m_LinearBufferWritePosition s + count\<rparr>))"
proof -
  have "m_LinearBufferWritePosition s mod m_BufferLength s < m_BufferLength s"
    using assms(3) by (simp add: word_mod_less_divisor word_neq_0_conv)
  then show ?thesis
    using assms by (simp add: Put_copy_def umod_Some Put_loop_result)
qed

lemma Put_overrun_fields:
  "m_Buffer (snd (Put_overrun s c)) = m_Buffer s"
  "m_BufferLength (snd (Put_overrun s c)) = m_BufferLength s"
  "m_BufferLock (snd (Put_overrun s c)) = m_BufferLock s"
  "m_IsFilling (snd (Put_overrun s c)) = m_IsFilling s"
  "m_LinearBufferWritePosition (snd (Put_overrun s c)) = m_LinearBufferWritePosition s"
  by (simp_all add: Put_overrun_def)

lemma Put_latch_fields:
  "m_Buffer (Put_latch s) = m_Buffer s"
  "m_BufferLength (Put_latch s) = m_BufferLength s"
  "m_BufferLock (Put_latch s) = m_BufferLock s"
  "m_LinearBufferWritePosition (Put_latch s) = m_LinearBufferWritePosition s"
  "m_LinearBufferReadPosition (Put_latch s) = m_LinearBufferReadPosition s"
  by (simp_all add: Put_latch_def)

text \<open>What a Put that passes both early returns does to the positions, the flag and the status.\<close>

lemma Put_returns:
  assumes "m_Buffer s \<noteq> None" "count \<noteq> 0" "count \<le> m_BufferLength s"
  shows "\<exists>s'. Put s p count = Some (fst (Put_overrun s count), s') \<and>
           m_BufferLock s' = m_BufferLock s \<and>
           m_Buffer s' \<noteq> None \<and>
           m_BufferLength s' = m_BufferLength s \<and>
           m_LinearBufferWritePosition s' = m_LinearBufferWritePosition s + count \<and>
           m_LinearBufferReadPosition s' = m_LinearBufferReadPosition (snd (Put_overrun s count)) \<and>
           m_IsFilling s' =
             (m_IsFilling s \<and>
              \<not> m_LinearBufferWritePosition s' - m_LinearBufferReadPosition s' > m_BufferLength s div 2)"
proof -
  obtain b where b: "m_Buffer s = Some b" using assms(1) by auto
  have len: "m_BufferLength s \<noteq> 0" using assms(2,3) by auto
  obtain st s1 where o: "Put_overrun s count = (st, s1)" by (cases "Put_overrun s count")
  have f: "m_Buffer s1 = Some b" "m_BufferLength s1 = m_BufferLength s"
    "m_IsFilling s1 = m_IsFilling s" "m_BufferLock s1 = m_BufferLock s"
    "m_LinearBufferWritePosition s1 = m_LinearBufferWritePosition s"
    using Put_overrun_fields[of s count] o b by simp_all
  have c: "count \<le> m_BufferLength s1" "m_BufferLength s1 \<noteq> 0" using assms(3) len f by simp_all
  show ?thesis
    using assms(2,3) o f
    by (auto simp add: Put_def not_less[symmetric] Put_copy_result[OF f(1) c] Put_latch_def)
qed

lemma Take_filling:
  "m_BufferLock s \<Longrightarrow> m_IsFilling s \<Longrightarrow>
   Take s t c rc = Some (STATUS_DEVICE_NOT_READY, s, t, map_option (\<lambda>_. 0) rc)"
  by (simp add: Take_def)

lemma Take_ready:
  assumes "m_BufferLock s" "\<not> m_IsFilling s" "m_Buffer s = Some b" "m_BufferLength s \<noteq> 0"
  shows "Take s t c rc =
     Some (STATUS_SUCCESS,
           s\<lparr>m_LinearBufferReadPosition :=
                m_LinearBufferReadPosition s +
                  min c (m_LinearBufferWritePosition s - m_LinearBufferReadPosition s),
              m_IsFilling :=
                (m_LinearBufferWritePosition s -
                   (m_LinearBufferReadPosition s +
                      min c (m_LinearBufferWritePosition s - m_LinearBufferReadPosition s)) = 0)\<rparr>,
           (\<lambda>i. if i < unat (min c (m_LinearBufferWritePosition s - m_LinearBufferReadPosition s))
                then b ((unat (m_LinearBufferReadPosition s) + i) mod unat (m_BufferLength s))
                else t i),
           map_option (\<lambda>_. min c (m_LinearBufferWritePosition s - m_LinearBufferReadPosition s)) rc)"
proof -
  let ?n = "min c (m_LinearBufferWritePosition s - m_LinearBufferReadPosition s)"
  let ?off = "m_LinearBufferReadPosition s mod m_BufferLength s"
  have lt: "?off < m_BufferLength s"
    using assms(4) by (simp add: word_mod_less_divisor word_neq_0_conv)
  have b: "unat (0::64 word) + unat ?n < 2 ^ 64"
    using unsigned_less[of ?n, where 'a=nat] by simp
  have m: "(unat ?off + i) mod unat (m_BufferLength s) =
           (unat (m_LinearBufferReadPosition s) + i) mod unat (m_BufferLength s)" for i
    by (simp add: unat_mod mod_add_left_eq)
  show ?thesis
    using assms
    by (simp add: Take_def umod_Some Let_def Take_loop_result[OF assms(4) lt b] m cong: if_cong)
qed

section \<open>Position arithmetic\<close>

lemma half_pos: "2 \<le> (len :: 64 word) \<Longrightarrow> 1 \<le> len div 2"
  by (simp add: word_le_nat_alt unat_div) 

lemma Put_arith_plain:
  fixes w r len count :: "64 word"
  assumes "r \<le> w" "unat w + unat count < 2 ^ 64" "count \<noteq> 0"
  shows "r \<le> w + count"
    and "1 \<le> w + count - r"
proof -
  have a: "unat (w + count) = unat w + unat count"
    using assms(2) by (simp add: unat_add_lem[THEN iffD1])
  have r: "unat r \<le> unat w" using assms(1) by (simp add: word_le_nat_alt)
  show le: "r \<le> w + count" using a r by (simp add: word_le_nat_alt)
  have c: "unat count \<noteq> 0" using assms(3) by (simp add: unat_eq_0)
  have "unat (w + count - r) = unat w + unat count - unat r"
    using le a by (simp add: unat_sub)
  then show "1 \<le> w + count - r" using r c by (simp add: word_le_nat_alt)
qed

lemma Put_arith_overflow:
  fixes w r len count :: "64 word"
  assumes "unat w + unat count < 2 ^ 64" "count \<noteq> 0" "count \<le> len"
    "r \<le> w" "len < w + count - r"
  shows "w + count - len + 1 \<le> w + count"
    and "w + count - (w + count - len + 1) = len - 1"
    and "len - 1 \<le> len"
    and "2 \<le> len \<Longrightarrow> 1 \<le> len - 1"
proof -
  have a: "unat (w + count) = unat w + unat count"
    using assms(1) by (simp add: unat_add_lem[THEN iffD1])
  have c: "unat count \<noteq> 0" using assms(2) by (simp add: unat_eq_0)
  have cl: "unat count \<le> unat len" using assms(3) by (simp add: word_le_nat_alt)
  have l1: "(1::64 word) \<le> len" using c cl by (simp add: word_le_nat_alt)
  have ul: "unat (len - 1) = unat len - 1" using l1 by (simp add: unat_sub)
  have r: "unat r \<le> unat w" using assms(4) by (simp add: word_le_nat_alt)
  have "r \<le> w + count" using a r by (simp add: word_le_nat_alt)
  then have "unat (w + count - r) = unat w + unat count - unat r"
    using a by (simp add: unat_sub)
  then have "unat len < unat w + unat count - unat r"
    using assms(5) by (simp add: word_less_nat_alt)
  then have le: "len - 1 \<le> w + count" using ul a by (simp add: word_le_nat_alt)
  have e: "w + count - len + 1 = w + count - (len - 1)" by simp
  have u: "unat (w + count - (len - 1)) = unat w + unat count - (unat len - 1)"
    using le a ul by (simp add: unat_sub)
  show "w + count - len + 1 \<le> w + count"
    unfolding e using u a by (simp add: word_le_nat_alt)
  show "w + count - (w + count - len + 1) = len - 1" by simp
  show "len - 1 \<le> len" using ul by (simp add: word_le_nat_alt)
  show "2 \<le> len \<Longrightarrow> 1 \<le> len - 1" using ul by (simp add: word_le_nat_alt)
qed

lemma Take_arith:
  fixes w r len c :: "64 word"
  assumes "r \<le> w"  "w - r \<le> len"
  shows "r + min c (w - r) \<le> w"
    and "w - (r + min c (w - r)) \<le> len"
    and "w - (r + min c (w - r)) \<noteq> 0 \<Longrightarrow> 1 \<le> w - (r + min c (w - r))"
proof -
  let ?n = "min c (w - r)"
  have n: "?n \<le> w - r" by simp
  have d: "unat (w - r) = unat w - unat r" using assms(1) by (simp add: unat_sub)
  have r: "unat r \<le> unat w" using assms(1) by (simp add: word_le_nat_alt)
  have n': "unat ?n \<le> unat w - unat r" using n d by (simp only: word_le_nat_alt)
  have a: "unat (r + ?n) = unat r + unat ?n"
    using n' r unsigned_less[of w, where 'a=nat] by (simp add: unat_add_lem[THEN iffD1])
  show le: "r + ?n \<le> w" using a n' r by (simp add: word_le_nat_alt)
  have s: "unat (w - (r + ?n)) = unat w - (unat r + unat ?n)"
    using le a by (simp only: unat_sub)
  have "unat (w - r) \<le> unat len" using assms(2) by (simp only: word_le_nat_alt)
  then show "w - (r + ?n) \<le> len" using s d by (simp add: word_le_nat_alt)
  show "w - (r + ?n) \<noteq> 0 \<Longrightarrow> 1 \<le> w - (r + ?n)"
    by (simp add: word_le_nat_alt unat_eq_0 Suc_le_eq unat_gt_0)
qed

section \<open>The invariant of reachable states\<close>

lemma Init_success:
  assumes "Init s0 n la pa = (STATUS_SUCCESS, s, calls)"
  shows "m_BufferLock s \<and> m_Buffer s \<noteq> None \<and> m_Buffer s = pa \<and> m_BufferLength s = n \<and> m_IsFilling s \<and>
         m_LinearBufferReadPosition s = 0 \<and> m_LinearBufferWritePosition s = 0"
  using assms by (auto simp: Init_def Let_def split: if_splits)

lemma invariant_Init:
  "Init s0 n la pa = (STATUS_SUCCESS, s, calls) \<Longrightarrow> ring_invariant s"
  using Init_success[of s0 n la pa s calls] by (auto simp add: ring_invariant_def)


lemma invariant_Take:
  assumes "ring_invariant s" "Take s t c rc = Some (st, s', t', rc')"
  shows "ring_invariant s'"
proof (cases "m_IsFilling s")
  case True
  then show ?thesis using assms by (simp add: ring_invariant_def Take_filling)
next
  case False
  obtain b where b: "m_Buffer s = Some b" using assms(1) by (auto simp: ring_invariant_def)
  have l: "m_BufferLock s" "m_BufferLength s \<noteq> 0" using assms(1) False by (auto simp: ring_invariant_def)
  have i: "m_LinearBufferReadPosition s \<le> m_LinearBufferWritePosition s"
     "m_LinearBufferWritePosition s - m_LinearBufferReadPosition s \<le> m_BufferLength s"
    using assms(1) by (auto simp: ring_invariant_def)
  show ?thesis
    using assms(2) l b Take_arith[OF i, of c]
    by (auto simp add: Take_ready[OF l(1) False b l(2)] ring_invariant_def)
qed

lemma invariant_Put:
  assumes "ring_invariant s" "unat (m_LinearBufferWritePosition s) + unat count < 2 ^ 64"
    "Put s p count = Some (st, s')"
  shows "ring_invariant s'"
proof -
  consider "m_BufferLength s < count" | "count = 0" | "count \<noteq> 0" "count \<le> m_BufferLength s"
    by fastforce
  then show ?thesis
  proof cases
    case 1
    then show ?thesis using assms by (simp add: Put_def)
  next
    case 2
    then show ?thesis using assms by (simp add: Put_def)
  next
    case 3
    have nn: "m_Buffer s \<noteq> None" using assms(1) by (auto simp add: ring_invariant_def)
    have i: "m_LinearBufferReadPosition s \<le> m_LinearBufferWritePosition s"
      "m_LinearBufferWritePosition s - m_LinearBufferReadPosition s \<le> m_BufferLength s"
      using assms(1) by (auto simp: ring_invariant_def)
    from Put_returns[OF nn 3, of p] assms(3)
    have f: "m_BufferLock s' = m_BufferLock s" "m_Buffer s' \<noteq> None"
      "m_BufferLength s' = m_BufferLength s"
      "m_LinearBufferWritePosition s' = m_LinearBufferWritePosition s + count"
      "m_LinearBufferReadPosition s' = m_LinearBufferReadPosition (snd (Put_overrun s count))"
      "m_IsFilling s' = (m_IsFilling s \<and>
              \<not> m_LinearBufferWritePosition s' - m_LinearBufferReadPosition s' > m_BufferLength s div 2)"
      by auto
    have len0: "m_BufferLength s \<noteq> 0" using 3 by auto
    show ?thesis
    proof (cases "m_BufferLength s < m_LinearBufferWritePosition s + count - m_LinearBufferReadPosition s")
      case True
      then have r: "m_LinearBufferReadPosition s' =
           m_LinearBufferWritePosition s + count - m_BufferLength s + 1"
        using f(5) by (simp add: Put_overrun_def)
      show ?thesis
        using assms(1) f(1-4) r len0 Put_arith_overflow[OF assms(2) 3 i(1) True]
        by (auto simp add: ring_invariant_def)
    next
      case False
      then have r: "m_LinearBufferReadPosition s' = m_LinearBufferReadPosition s"
        using f(5) by (simp add: Put_overrun_def)
      have le: "m_LinearBufferWritePosition s + count - m_LinearBufferReadPosition s \<le> m_BufferLength s"
        using False by simp
      show ?thesis
        using assms(1) f(1-4) r len0 le Put_arith_plain[OF i(1) assms(2) 3(1)]
        by (auto simp add: ring_invariant_def)
    qed
  qed
qed


section \<open>Claims about \<open>Put\<close> and \<open>Take\<close> on one state\<close>

text \<open>
  Claim C7.  A \<open>Put\<close> whose \<open>count\<close> is larger than the capacity returns
  \<open>STATUS_BUFFER_TOO_SMALL\<close> from any state and changes nothing: the buffer after
  the call is the buffer before it (positions, flag, storage), and so
  \<open>GetAvailableBytes\<close> gives the same value.
\<close>

theorem Put_too_small_rejected:
  assumes "m_BufferLength s < count"
  shows "\<exists>s'. Put s pBytes count = Some (STATUS_BUFFER_TOO_SMALL, s') \<and> s' = s \<and>
           GetAvailableBytes s' = GetAvailableBytes s"
  using assms by (simp add: Put_def)

theorem Put_too_small_rejected_witness:
  "m_BufferLength \<lparr>m_BufferLock = True, m_Buffer = Some (bytes [9, 8, 7, 6]), m_BufferLength = 4,
       m_IsFilling = False, m_LinearBufferReadPosition = 2, m_LinearBufferWritePosition = 5\<rparr> < 5 \<and>
   Put \<lparr>m_BufferLock = True, m_Buffer = Some (bytes [9, 8, 7, 6]), m_BufferLength = 4,
       m_IsFilling = False, m_LinearBufferReadPosition = 2, m_LinearBufferWritePosition = 5\<rparr>
     (bytes [1, 2, 3, 4, 5]) 5 =
   Some (STATUS_BUFFER_TOO_SMALL,
     \<lparr>m_BufferLock = True, m_Buffer = Some (bytes [9, 8, 7, 6]), m_BufferLength = 4,
       m_IsFilling = False, m_LinearBufferReadPosition = 2, m_LinearBufferWritePosition = 5\<rparr>)"
  using Put_too_small_rejected[of
     "\<lparr>m_BufferLock = True, m_Buffer = Some (bytes [9, 8, 7, 6]), m_BufferLength = 4,
       m_IsFilling = False, m_LinearBufferReadPosition = 2, m_LinearBufferWritePosition = 5\<rparr>"
     5 "bytes [1, 2, 3, 4, 5]"]
  by simp

text \<open>
  Claim C5.  While the buffer is filling, \<open>Take\<close> stores 0 through \<open>readCount\<close>
  when that pointer is not \<open>NULL\<close>, leaves the target memory and the whole buffer
  state as they were, and returns \<open>STATUS_DEVICE_NOT_READY\<close>.  Nothing is lost by the
  refused call: as soon as an accepted \<open>Put\<close> has brought the unread count above half
  the capacity, the same \<open>Take\<close> returns \<open>STATUS_SUCCESS\<close>.
\<close>

theorem Take_while_filling:
  assumes "m_BufferLock s" "m_IsFilling s"
  shows "Take s pTarget count readCount =
           Some (STATUS_DEVICE_NOT_READY, s, pTarget, map_option (\<lambda>_. 0) readCount) \<and>
         (\<forall>pBytes n status s'.
            m_Buffer s \<noteq> None \<and> n \<noteq> 0 \<and> n \<le> m_BufferLength s \<and>
            Put s pBytes n = Some (status, s') \<and>
            m_BufferLength s' div 2 < m_LinearBufferWritePosition s' - m_LinearBufferReadPosition s'
            \<longrightarrow> (\<exists>s'' pTarget' readCount'.
                   Take s' pTarget count readCount =
                     Some (STATUS_SUCCESS, s'', pTarget', readCount')))"
proof (intro conjI allI impI)
  show "Take s pTarget count readCount =
           Some (STATUS_DEVICE_NOT_READY, s, pTarget, map_option (\<lambda>_. 0) readCount)"
    using assms by (rule Take_filling)
next
  fix pBytes n status s'
  assume h: "m_Buffer s \<noteq> None \<and> n \<noteq> 0 \<and> n \<le> m_BufferLength s \<and>
            Put s pBytes n = Some (status, s') \<and>
            m_BufferLength s' div 2 < m_LinearBufferWritePosition s' - m_LinearBufferReadPosition s'"
  then have nn: "m_Buffer s \<noteq> None" and n0: "n \<noteq> 0" and nl: "n \<le> m_BufferLength s"
    and p: "Put s pBytes n = Some (status, s')"
    and above: "m_BufferLength s' div 2 < m_LinearBufferWritePosition s' - m_LinearBufferReadPosition s'"
    by simp_all
  from Put_returns[OF nn n0 nl, of pBytes] p
  have f: "m_BufferLock s' = m_BufferLock s" "m_Buffer s' \<noteq> None"
      "m_BufferLength s' = m_BufferLength s"
      "m_IsFilling s' = (m_IsFilling s \<and>
              \<not> m_LinearBufferWritePosition s' - m_LinearBufferReadPosition s' > m_BufferLength s div 2)"
    by auto
  obtain b where b: "m_Buffer s' = Some b" using f(2) by auto
  have l: "m_BufferLock s'" using f(1) assms(1) by simp
  have nf: "\<not> m_IsFilling s'" using f(3,4) above by simp
  have len: "m_BufferLength s' \<noteq> 0" using f(3) n0 nl by auto
  show "\<exists>s'' pTarget' readCount'.
          Take s' pTarget count readCount = Some (STATUS_SUCCESS, s'', pTarget', readCount')"
    by (simp add: Take_ready[OF l nf b len])
qed

theorem Take_while_filling_witness:
  "(let s = \<lparr>m_BufferLock = True, m_Buffer = Some (bytes [0, 0, 0, 0]), m_BufferLength = 4,
              m_IsFilling = True, m_LinearBufferReadPosition = 0,
              m_LinearBufferWritePosition = 2\<rparr>
    in m_BufferLock s \<and> m_IsFilling s \<and>
       Take s (bytes [7, 7]) 2 (Some 99) = Some (STATUS_DEVICE_NOT_READY, s, bytes [7, 7], Some 0) \<and>
       (\<exists>s' s'' pTarget' readCount'.
          m_Buffer s \<noteq> None \<and> (1 :: 64 word) \<noteq> 0 \<and> 1 \<le> m_BufferLength s \<and>
          Put s (bytes [5]) 1 = Some (STATUS_SUCCESS, s') \<and>
          m_BufferLength s' div 2 < m_LinearBufferWritePosition s' - m_LinearBufferReadPosition s' \<and>
          Take s' (bytes [7, 7]) 2 (Some 99) = Some (STATUS_SUCCESS, s'', pTarget', readCount')))"
proof -
  let ?s = "\<lparr>m_BufferLock = True, m_Buffer = Some (bytes [0, 0, 0, 0]), m_BufferLength = 4,
              m_IsFilling = True, m_LinearBufferReadPosition = 0,
              m_LinearBufferWritePosition = 2\<rparr>"
  have h: "m_BufferLock ?s" "m_IsFilling ?s" by simp_all
  note inst = Take_while_filling[OF h, of "bytes [7, 7]" 2 "Some 99"]
  have nn: "m_Buffer ?s \<noteq> None" "(1 :: 64 word) \<noteq> 0" "1 \<le> m_BufferLength ?s" by simp_all
  from Put_returns[OF nn, of "bytes [5]"]
  obtain s' where p: "Put ?s (bytes [5]) 1 = Some (fst (Put_overrun ?s 1), s')"
    and l: "m_BufferLength s' = 4" and w: "m_LinearBufferWritePosition s' = 3"
    and r: "m_LinearBufferReadPosition s' = m_LinearBufferReadPosition (snd (Put_overrun ?s 1))"
    by auto
  have p': "Put ?s (bytes [5]) 1 = Some (STATUS_SUCCESS, s')"
    using p by (simp add: Put_overrun_def)
  have r': "m_LinearBufferReadPosition s' = 0" using r by (simp add: Put_overrun_def)
  have above: "m_BufferLength s' div 2 < m_LinearBufferWritePosition s' - m_LinearBufferReadPosition s'"
    by (simp add: l w r')
  from inst nn p' above
  obtain s'' t' rc' where "Take s' (bytes [7, 7]) 2 (Some 99) = Some (STATUS_SUCCESS, s'', t', rc')"
    by blast
  then show ?thesis using inst p' above by (simp add: Let_def)
qed

text \<open>
  Claim C4.  When the buffer is not filling, \<open>Take\<close> transfers
  \<open>n = min count (writePos - readPos)\<close> bytes: byte \<open>i\<close> of the target is the
  storage byte at \<open>(readPos + i) mod capacity\<close> for \<open>i < n\<close>, and the target is
  untouched from \<open>n\<close> on.  The read position advances by \<open>n\<close>, \<open>n\<close> is stored
  through \<open>readCount\<close> when that pointer is not \<open>NULL\<close>, the status is
  \<open>STATUS_SUCCESS\<close> whatever \<open>count\<close> was, and afterwards the buffer is filling
  exactly when no unread byte is left.  The buffer is taken with its lock, its storage
  and a capacity other than 0, as every reachable buffer that is not filling has them
  (\<open>reachable_invariant\<close>).
\<close>

theorem Take_when_not_filling:
  assumes "m_BufferLock s" "m_Buffer s = Some b" "m_BufferLength s \<noteq> 0" "\<not> m_IsFilling s"
  shows "\<exists>n s' pTarget'.
           n = min count (m_LinearBufferWritePosition s - m_LinearBufferReadPosition s) \<and>
           Take s pTarget count readCount =
             Some (STATUS_SUCCESS, s', pTarget', map_option (\<lambda>_. n) readCount) \<and>
           (\<forall>i. pTarget' i =
              (if i < unat n
               then b ((unat (m_LinearBufferReadPosition s) + i) mod unat (m_BufferLength s))
               else pTarget i)) \<and>
           m_LinearBufferReadPosition s' = m_LinearBufferReadPosition s + n \<and>
           m_LinearBufferWritePosition s' = m_LinearBufferWritePosition s \<and>
           m_Buffer s' = m_Buffer s \<and> m_BufferLength s' = m_BufferLength s \<and>
           m_BufferLock s' = m_BufferLock s \<and>
           (m_IsFilling s' \<longleftrightarrow>
              m_LinearBufferWritePosition s' - m_LinearBufferReadPosition s' = 0)"
  by (simp add: Take_ready[OF assms(1,4,2,3)])

theorem Take_when_not_filling_witness:
  "(let s = \<lparr>m_BufferLock = True, m_Buffer = Some (bytes [10, 11, 12, 13]), m_BufferLength = 4,
              m_IsFilling = False, m_LinearBufferReadPosition = 3,
              m_LinearBufferWritePosition = 6\<rparr>
    in m_BufferLock s \<and> m_Buffer s = Some (bytes [10, 11, 12, 13]) \<and> m_BufferLength s \<noteq> 0 \<and>
       \<not> m_IsFilling s \<and>
       (\<exists>s' pTarget'.
          Take s (bytes []) 5 (Some 99) = Some (STATUS_SUCCESS, s', pTarget', Some 3) \<and>
          pTarget' 0 = 13 \<and> pTarget' 1 = 10 \<and> pTarget' 2 = 11 \<and> pTarget' 3 = 0 \<and>
          m_LinearBufferReadPosition s' = 6 \<and> m_IsFilling s'))"
proof -
  let ?s = "\<lparr>m_BufferLock = True, m_Buffer = Some (bytes [10, 11, 12, 13]), m_BufferLength = 4,
              m_IsFilling = False, m_LinearBufferReadPosition = 3,
              m_LinearBufferWritePosition = 6\<rparr>"
  have h: "m_BufferLock ?s" "m_Buffer ?s = Some (bytes [10, 11, 12, 13])"
    "m_BufferLength ?s \<noteq> 0" "\<not> m_IsFilling ?s"
    by simp_all
  from Take_when_not_filling[OF h, of 5 "bytes []" "Some 99"]
  obtain n s' t' where n: "n = min 5 (6 - 3 :: 64 word)"
    and t: "Take ?s (bytes []) 5 (Some 99) = Some (STATUS_SUCCESS, s', t', Some n)"
    and c: "\<And>i. t' i = (if i < unat n then bytes [10, 11, 12, 13] ((unat (3 :: 64 word) + i) mod unat (4 :: 64 word))
               else bytes [] i)"
    and r: "m_LinearBufferReadPosition s' = 3 + n"
    and f: "m_IsFilling s' \<longleftrightarrow> m_LinearBufferWritePosition s' - m_LinearBufferReadPosition s' = 0"
    and w: "m_LinearBufferWritePosition s' = 6"
    by auto
  have n3: "n = 3" using n by simp
  have "t' 0 = 13" "t' 1 = 10" "t' 2 = 11" "t' 3 = 0"
    by (simp_all add: c n3 bytes_def)
  moreover have "m_LinearBufferReadPosition s' = 6" "m_IsFilling s'"
    using r f w n3 by simp_all
  ultimately show ?thesis using t n3 h by (simp add: Let_def)
qed

text \<open>
  Claim C3.  An accepted \<open>Put\<close> of at least one byte into a buffer that is filling
  leaves the filling state exactly when the unread count after the call is strictly
  above half the capacity; at half the capacity or below the buffer stays filling.
  \<open>Put\<close> never sets the flag back: a buffer that is not filling is not filling after
  the call.  With capacity 100, putting 50 bytes right after \<open>Init\<close> leaves the buffer
  filling: \<open>GetAvailableBytes\<close> is 0 and \<open>Take\<close> returns
  \<open>STATUS_DEVICE_NOT_READY\<close>.
\<close>

theorem Put_threshold_latch:
  "(m_Buffer s \<noteq> None \<and> count \<noteq> 0 \<and> count \<le> m_BufferLength s \<longrightarrow>
      (\<exists>status s'. Put s pBytes count = Some (status, s') \<and>
         (m_IsFilling s \<longrightarrow>
            (m_IsFilling s' \<longleftrightarrow>
               m_LinearBufferWritePosition s' - m_LinearBufferReadPosition s'
                 \<le> m_BufferLength s' div 2)) \<and>
         (\<not> m_IsFilling s \<longrightarrow> \<not> m_IsFilling s'))) \<and>
   (Init s0 100 lock_alloc pool_alloc = (STATUS_SUCCESS, s1, calls) \<longrightarrow>
      (\<exists>s2. Put s1 pBytes 50 = Some (STATUS_SUCCESS, s2) \<and>
         m_IsFilling s2 \<and> GetAvailableBytes s2 = 0 \<and>
         Take s2 pTarget n readCount =
           Some (STATUS_DEVICE_NOT_READY, s2, pTarget, map_option (\<lambda>_. 0) readCount)))"
proof (intro conjI impI)
  assume "m_Buffer s \<noteq> None \<and> count \<noteq> 0 \<and> count \<le> m_BufferLength s"
  then have h: "m_Buffer s \<noteq> None" "count \<noteq> 0" "count \<le> m_BufferLength s" by simp_all
  from Put_returns[OF h, of pBytes]
  obtain s' where p: "Put s pBytes count = Some (fst (Put_overrun s count), s')"
    and l: "m_BufferLength s' = m_BufferLength s"
    and f: "m_IsFilling s' =
             (m_IsFilling s \<and>
              \<not> m_LinearBufferWritePosition s' - m_LinearBufferReadPosition s' > m_BufferLength s div 2)"
    by blast
  show "\<exists>status s'. Put s pBytes count = Some (status, s') \<and>
         (m_IsFilling s \<longrightarrow>
            (m_IsFilling s' \<longleftrightarrow>
               m_LinearBufferWritePosition s' - m_LinearBufferReadPosition s'
                 \<le> m_BufferLength s' div 2)) \<and>
         (\<not> m_IsFilling s \<longrightarrow> \<not> m_IsFilling s')"
    using p l f by (auto simp: not_less)
next
  assume i: "Init s0 100 lock_alloc pool_alloc = (STATUS_SUCCESS, s1, calls)"
  from Init_success[OF i]
  have s1: "m_BufferLock s1" "m_Buffer s1 \<noteq> None" "m_BufferLength s1 = 100" "m_IsFilling s1"
    "m_LinearBufferReadPosition s1 = 0" "m_LinearBufferWritePosition s1 = 0"
    by auto
  have h: "m_Buffer s1 \<noteq> None" "(50 :: 64 word) \<noteq> 0" "50 \<le> m_BufferLength s1"
    using s1 by simp_all
  have o: "Put_overrun s1 50 = (STATUS_SUCCESS, s1)"
    using s1 by (simp add: Put_overrun_def)
  from Put_returns[OF h, of pBytes]
  obtain s2 where p: "Put s1 pBytes 50 = Some (STATUS_SUCCESS, s2)"
    and k: "m_BufferLock s2"
    and w: "m_LinearBufferWritePosition s2 = 50"
    and r: "m_LinearBufferReadPosition s2 = 0"
    and f: "m_IsFilling s2 =
             (m_IsFilling s1 \<and>
              \<not> m_LinearBufferWritePosition s2 - m_LinearBufferReadPosition s2 > m_BufferLength s1 div 2)"
    using o s1 by auto
  have fill: "m_IsFilling s2" using f w r s1 by simp
  show "\<exists>s2. Put s1 pBytes 50 = Some (STATUS_SUCCESS, s2) \<and>
         m_IsFilling s2 \<and> GetAvailableBytes s2 = 0 \<and>
         Take s2 pTarget n readCount =
           Some (STATUS_DEVICE_NOT_READY, s2, pTarget, map_option (\<lambda>_. 0) readCount)"
    using p fill k by (simp add: GetAvailableBytes_def Take_filling)
qed

theorem Put_threshold_latch_witness:
  "(let s = \<lparr>m_BufferLock = True, m_Buffer = Some (bytes []), m_BufferLength = 100,
              m_IsFilling = True, m_LinearBufferReadPosition = 0,
              m_LinearBufferWritePosition = 0\<rparr>
    in m_Buffer s \<noteq> None \<and> (60 :: 64 word) \<noteq> 0 \<and> 60 \<le> m_BufferLength s \<and> m_IsFilling s \<and>
       (\<exists>s'. Put s (bytes [1, 2, 3]) 60 = Some (STATUS_SUCCESS, s') \<and>
          \<not> m_IsFilling s' \<and> GetAvailableBytes s' = 60) \<and>
       Init (RingBuffer_ctor False) 100 True (Some (bytes [])) =
         (STATUS_SUCCESS, s, [NewSpinLock, ExAllocatePoolWithTag 100]) \<and>
       (\<exists>s2. Put s (bytes [1, 2, 3]) 50 = Some (STATUS_SUCCESS, s2) \<and>
          m_IsFilling s2 \<and> GetAvailableBytes s2 = 0 \<and>
          Take s2 (bytes []) 10 (Some 7) = Some (STATUS_DEVICE_NOT_READY, s2, bytes [], Some 0)))"
proof -
  let ?s = "\<lparr>m_BufferLock = True, m_Buffer = Some (bytes []), m_BufferLength = 100,
              m_IsFilling = True, m_LinearBufferReadPosition = 0,
              m_LinearBufferWritePosition = 0\<rparr>"
  have i: "Init (RingBuffer_ctor False) 100 True (Some (bytes [])) =
         (STATUS_SUCCESS, ?s, [NewSpinLock, ExAllocatePoolWithTag 100])"
    by (simp add: Init_def RingBuffer_ctor_def)
  have h: "m_Buffer ?s \<noteq> None" "(60 :: 64 word) \<noteq> 0" "60 \<le> m_BufferLength ?s"
    by simp_all
  note inst = Put_threshold_latch[of ?s 60 "bytes [1, 2, 3]" "RingBuffer_ctor False" True
      "Some (bytes [])" ?s "[NewSpinLock, ExAllocatePoolWithTag 100]" "bytes []" 10 "Some 7"]
  from inst h obtain status s' where p: "Put ?s (bytes [1, 2, 3]) 60 = Some (status, s')"
    and f: "m_IsFilling s' \<longleftrightarrow>
       m_LinearBufferWritePosition s' - m_LinearBufferReadPosition s' \<le> m_BufferLength s' div 2"
    by auto
  from Put_returns[OF h, of "bytes [1, 2, 3]"] p
  have v: "status = STATUS_SUCCESS" "m_BufferLength s' = 100"
    "m_LinearBufferWritePosition s' = 60" "m_LinearBufferReadPosition s' = 0"
    by (auto simp: Put_overrun_def)
  have a: "\<exists>s'. Put ?s (bytes [1, 2, 3]) 60 = Some (STATUS_SUCCESS, s') \<and>
          \<not> m_IsFilling s' \<and> GetAvailableBytes s' = 60"
    using p f v by (simp add: GetAvailableBytes_def)
  have b: "\<exists>s2. Put ?s (bytes [1, 2, 3]) 50 = Some (STATUS_SUCCESS, s2) \<and>
          m_IsFilling s2 \<and> GetAvailableBytes s2 = 0 \<and>
          Take s2 (bytes []) 10 (Some 7) = Some (STATUS_DEVICE_NOT_READY, s2, bytes [], Some 0)"
    using inst i by simp
  show ?thesis using a b i by (simp add: Let_def)
qed

section \<open>The outcomes of \<open>Init\<close>\<close>

text \<open>
  What \<open>Init\<close> does, case by case.  When not even the lock can be allocated,
  \<open>Init\<close> returns \<open>STATUS_INSUFFICIENT_RESOURCES\<close> and changes nothing.  Once the
  lock exists, an \<open>Init\<close> whose storage allocation fails returns
  \<open>STATUS_INSUFFICIENT_RESOURCES\<close> and leaves the buffer without storage; it assigns
  neither the capacity nor the positions nor the flag, which keep the values they had
  (capacity 0 only for a buffer that was only constructed).  When the allocation
  succeeds, \<open>Init\<close> returns \<open>STATUS_SUCCESS\<close> with the new storage, the requested
  capacity, both positions 0 and the filling flag set; storage held before is freed
  just before the allocation, and nothing is freed when there was none.
\<close>

theorem Init_outcomes:
  "(\<not> m_BufferLock s \<and> \<not> lock_alloc \<longrightarrow>
      Init s bufferSize lock_alloc pool_alloc = (STATUS_INSUFFICIENT_RESOURCES, s, [NewSpinLock])) \<and>
   (m_BufferLock s \<or> lock_alloc \<longrightarrow>
      (\<exists>s' calls.
         Init s bufferSize lock_alloc None = (STATUS_INSUFFICIENT_RESOURCES, s', calls) \<and>
         m_Buffer s' = None \<and> m_BufferLength s' = m_BufferLength s \<and>
         m_LinearBufferWritePosition s' = m_LinearBufferWritePosition s \<and>
         m_LinearBufferReadPosition s' = m_LinearBufferReadPosition s \<and>
         m_IsFilling s' = m_IsFilling s \<and>
         (s = RingBuffer_ctor lock0 \<longrightarrow> m_BufferLength s' = 0))) \<and>
   (m_BufferLock s \<or> lock_alloc \<longrightarrow>
      (\<exists>s' calls.
         Init s bufferSize lock_alloc (Some region) = (STATUS_SUCCESS, s', calls) \<and>
         m_Buffer s' = Some region \<and> m_BufferLength s' = bufferSize \<and>
         m_LinearBufferWritePosition s' = 0 \<and> m_LinearBufferReadPosition s' = 0 \<and>
         m_IsFilling s' \<and>
         (m_Buffer s \<noteq> None \<longrightarrow>
            (\<exists>before. calls = before @ [ExFreePoolWithTag, ExAllocatePoolWithTag bufferSize])) \<and>
         (m_Buffer s = None \<longrightarrow> ExFreePoolWithTag \<notin> set calls)))"
  by (auto simp add: Init_def Let_def RingBuffer_ctor_def)

theorem Init_outcomes_witness:
  "(let s = \<lparr>m_BufferLock = True, m_Buffer = Some (bytes [1, 2]), m_BufferLength = 2,
              m_IsFilling = False, m_LinearBufferReadPosition = 3,
              m_LinearBufferWritePosition = 5\<rparr>
    in (m_BufferLock s \<or> False) \<and>
       Init s 8 False None =
         (STATUS_INSUFFICIENT_RESOURCES, s\<lparr>m_Buffer := None\<rparr>,
          [ExFreePoolWithTag, ExAllocatePoolWithTag 8]) \<and>
       Init s 8 False (Some (bytes [])) =
         (STATUS_SUCCESS,
          \<lparr>m_BufferLock = True, m_Buffer = Some (bytes []), m_BufferLength = 8,
           m_IsFilling = True, m_LinearBufferReadPosition = 0,
           m_LinearBufferWritePosition = 0\<rparr>,
          [ExFreePoolWithTag, ExAllocatePoolWithTag 8])) \<and>
   (\<exists>s' calls.
      Init (RingBuffer_ctor False) 8 True None = (STATUS_INSUFFICIENT_RESOURCES, s', calls) \<and>
      m_Buffer s' = None \<and> m_BufferLength s' = 0) \<and>
   \<not> m_BufferLock (RingBuffer_ctor False) \<and>
   Init (RingBuffer_ctor False) 8 False (Some (bytes [])) =
     (STATUS_INSUFFICIENT_RESOURCES, RingBuffer_ctor False, [NewSpinLock])"
proof -
  let ?s = "\<lparr>m_BufferLock = True, m_Buffer = Some (bytes [1, 2]), m_BufferLength = 2,
              m_IsFilling = False, m_LinearBufferReadPosition = 3,
              m_LinearBufferWritePosition = 5\<rparr>"
  have h: "m_BufferLock ?s \<or> False" by simp
  from Init_outcomes[of ?s False 8 None True "bytes []"] h
  have a: "\<exists>s' calls. Init ?s 8 False None = (STATUS_INSUFFICIENT_RESOURCES, s', calls) \<and>
         m_Buffer s' = None \<and> m_BufferLength s' = m_BufferLength ?s"
    and b: "\<exists>s' calls. Init ?s 8 False (Some (bytes [])) = (STATUS_SUCCESS, s', calls) \<and>
         m_Buffer s' = Some (bytes []) \<and> m_BufferLength s' = 8"
    by blast+
  from Init_outcomes[of "RingBuffer_ctor False" True 8 None False "bytes []"]
  have c: "\<exists>s' calls.
      Init (RingBuffer_ctor False) 8 True None = (STATUS_INSUFFICIENT_RESOURCES, s', calls) \<and>
      m_Buffer s' = None \<and> m_BufferLength s' = 0"
    by blast
  have n: "\<not> m_BufferLock (RingBuffer_ctor False)" by (simp add: RingBuffer_ctor_def)
  from Init_outcomes[of "RingBuffer_ctor False" False 8 "Some (bytes [])" False "bytes []"] n
  have l: "Init (RingBuffer_ctor False) 8 False (Some (bytes [])) =
     (STATUS_INSUFFICIENT_RESOURCES, RingBuffer_ctor False, [NewSpinLock])"
    by blast
  have d: "Init ?s 8 False None =
         (STATUS_INSUFFICIENT_RESOURCES, ?s\<lparr>m_Buffer := None\<rparr>,
          [ExFreePoolWithTag, ExAllocatePoolWithTag 8])"
    using a by (simp add: Init_def)
  have e: "Init ?s 8 False (Some (bytes [])) =
         (STATUS_SUCCESS,
          \<lparr>m_BufferLock = True, m_Buffer = Some (bytes []), m_BufferLength = 8,
           m_IsFilling = True, m_LinearBufferReadPosition = 0,
           m_LinearBufferWritePosition = 0\<rparr>,
          [ExFreePoolWithTag, ExAllocatePoolWithTag 8])"
    using b by (simp add: Init_def)
  show ?thesis using c d e n l by (simp add: Let_def)
qed

section \<open>Claims about reachable states\<close>

lemma Init_ctor:
  "Init (RingBuffer_ctor False) n True (Some region) =
     (STATUS_SUCCESS,
      \<lparr>m_BufferLock = True, m_Buffer = Some region, m_BufferLength = n, m_IsFilling = True,
       m_LinearBufferReadPosition = 0, m_LinearBufferWritePosition = 0\<rparr>,
      [NewSpinLock, ExAllocatePoolWithTag n])"
  by (simp add: Init_def RingBuffer_ctor_def)






section \<open>Runs on concrete buffers\<close>

text \<open>Rewrite rules that evaluate \<open>Put\<close> and \<open>Take\<close> on a given buffer.\<close>

lemmas run_Put = Put_def Put_overrun_def Put_copy_def umod_def Put_loop_result Put_latch_def
lemmas run_Take = Take_def umod_def Take_loop_result

subsection \<open>The overflow policy\<close>

text \<open>
  An accepted \<open>Put\<close> whose overrun test fires returns \<open>STATUS_BUFFER_OVERFLOW\<close>,
  moves the read position to \<open>writePos + count - capacity + 1\<close>, advances the write
  position by \<open>count\<close> and so leaves \<open>capacity - 1\<close> unread bytes.
\<close>

lemma Put_overflow_positions:
  assumes "m_Buffer s \<noteq> None" "count \<noteq> 0" "count \<le> m_BufferLength s"
    "m_BufferLength s < m_LinearBufferWritePosition s + count - m_LinearBufferReadPosition s"
  shows "\<exists>s'. Put s pBytes count = Some (STATUS_BUFFER_OVERFLOW, s') \<and>
           m_LinearBufferReadPosition s' =
             m_LinearBufferWritePosition s + count - m_BufferLength s + 1 \<and>
           m_LinearBufferWritePosition s' = m_LinearBufferWritePosition s + count \<and>
           m_LinearBufferWritePosition s' - m_LinearBufferReadPosition s' = m_BufferLength s - 1"
proof -
  have o: "Put_overrun s count =
     (STATUS_BUFFER_OVERFLOW,
      s\<lparr>m_LinearBufferReadPosition :=
           m_LinearBufferWritePosition s + count - m_BufferLength s + 1\<rparr>)"
    using assms(4) by (simp add: Put_overrun_def)
  from Put_returns[OF assms(1-3), of pBytes]
  obtain s' where p: "Put s pBytes count = Some (fst (Put_overrun s count), s')"
    and w: "m_LinearBufferWritePosition s' = m_LinearBufferWritePosition s + count"
    and r: "m_LinearBufferReadPosition s' = m_LinearBufferReadPosition (snd (Put_overrun s count))"
    by blast
  show ?thesis using p w r by (simp add: o)
qed

text \<open>
  Capacity 100: after 100 bytes \<open>old\<close> and 10 more bytes \<open>new\<close>, the second
  \<open>Put\<close> reports the overflow and 99 bytes can be taken: \<open>old\<close> from index 11 on,
  then the 10 bytes of \<open>new\<close>.  Neither \<open>Put\<close> of this run crosses the end of
  the storage.
\<close>

lemma overflow_example_100:
  assumes "Init s0 100 lock_alloc pool_alloc = (STATUS_SUCCESS, s1, calls)"
  shows "\<exists>s2 s3 s4 t.
           Put s1 old 100 = Some (STATUS_SUCCESS, s2) \<and>
           Put s2 new 10 = Some (STATUS_BUFFER_OVERFLOW, s3) \<and>
           GetAvailableBytes s3 = 99 \<and>
           Take s3 pTarget 99 readCount =
             Some (STATUS_SUCCESS, s4, t, map_option (\<lambda>_. 99) readCount) \<and>
           (\<forall>i<89. t i = old (11 + i)) \<and>
           (\<forall>i. 89 \<le> i \<and> i < 99 \<longrightarrow> t i = new (i - 89))"
proof -
  from Init_success[OF assms]
  obtain m where s1: "m_BufferLock s1" "m_Buffer s1 = Some m" "m_BufferLength s1 = 100"
    "m_IsFilling s1" "m_LinearBufferReadPosition s1 = 0" "m_LinearBufferWritePosition s1 = 0"
    by auto
  define s2 where "s2 = s1\<lparr>m_Buffer := Some (RtlCopyMemory m 0 old 0 100),
     m_LinearBufferWritePosition := 100, m_IsFilling := False\<rparr>"
  define s3 where "s3 = s2\<lparr>m_Buffer := Some (RtlCopyMemory (RtlCopyMemory m 0 old 0 100) 0 new 0 10),
     m_LinearBufferWritePosition := 110, m_LinearBufferReadPosition := 11\<rparr>"
  have p2: "Put s1 old 100 = Some (STATUS_SUCCESS, s2)"
    using s1 by (simp add: run_Put s2_def)
  have p3: "Put s2 new 10 = Some (STATUS_BUFFER_OVERFLOW, s3)"
    using s1 by (simp add: run_Put s2_def s3_def)
  have g: "GetAvailableBytes s3 = 99"
    using s1 by (simp add: GetAvailableBytes_def s2_def s3_def)
  have k: "m_BufferLock s3" "\<not> m_IsFilling s3"
    "m_Buffer s3 = Some (RtlCopyMemory (RtlCopyMemory m 0 old 0 100) 0 new 0 10)"
    "m_BufferLength s3 \<noteq> 0"
    using s1 by (simp_all add: s2_def s3_def)
  have f: "m_LinearBufferReadPosition s3 = 11" "m_LinearBufferWritePosition s3 = 110"
    "m_BufferLength s3 = 100"
    using s1 by (simp_all add: s2_def s3_def)
  let ?t = "\<lambda>i. if i < 99
       then RtlCopyMemory (RtlCopyMemory m 0 old 0 100) 0 new 0 10 ((11 + i) mod 100)
       else pTarget i"
  from Take_ready[OF k, of pTarget 99 readCount]
  obtain s4 where t: "Take s3 pTarget 99 readCount =
      Some (STATUS_SUCCESS, s4, ?t, map_option (\<lambda>_. 99) readCount)"
    by (simp add: f cong: if_cong)
  have lo: "?t i = old (11 + i)" if "i < 89" for i
    using that by (simp add: RtlCopyMemory_def)
  have hi: "?t i = new (i - 89)" if "89 \<le> i \<and> i < 99" for i
  proof -
    have e: "11 + i = (i - 89) + 100" using that by linarith
    have l: "i - 89 < 100" using that by linarith
    have "(11 + i) mod 100 = (i - 89) mod 100" unfolding e by simp
    then have "(11 + i) mod 100 = i - 89" using l by simp
    moreover have "i - 89 < 10" using that by linarith
    ultimately show ?thesis using that by (simp add: RtlCopyMemory_def)
  qed
  show ?thesis
    using p2 p3 g t lo hi by blast
qed

subsection \<open>First in, first out while no copy crosses the end of the storage\<close>

text \<open>
  \<open>Take\<close> removes from the front of the unread bytes what it hands out.  A \<open>Put\<close>
  that neither overflows nor crosses the end of the storage appends its bytes.
\<close>

lemma map_upt_shift: "map f [n..<n + k] = map (\<lambda>i. f (n + i)) [0..<k]"
  by (induction k) simp_all

lemma Take_unread:
  assumes "ring_invariant s" "\<not> m_IsFilling s"
  shows "\<exists>s' t' n.
           n = min c (m_LinearBufferWritePosition s - m_LinearBufferReadPosition s) \<and>
           Take s t c rc = Some (STATUS_SUCCESS, s', t', map_option (\<lambda>_. n) rc) \<and>
           map t' [0..<unat n] = take (unat n) (unread s) \<and>
           unread s' = drop (unat n) (unread s) \<and>
           m_LinearBufferWritePosition s' = m_LinearBufferWritePosition s \<and>
           m_BufferLength s' = m_BufferLength s"
proof -
  let ?w = "m_LinearBufferWritePosition s" and ?r = "m_LinearBufferReadPosition s"
  let ?L = "unat (m_BufferLength s)"
  let ?n = "min c (?w - ?r)"
  obtain b where b: "m_Buffer s = Some b" using assms(1) by (auto simp: ring_invariant_def)
  have l: "m_BufferLock s" "m_BufferLength s \<noteq> 0" and rw: "?r \<le> ?w"
    using assms by (auto simp: ring_invariant_def)
  have n_le: "unat ?n \<le> unat (?w - ?r)" by (simp add: word_le_nat_alt[symmetric])
  have d: "unat (?w - ?r) = unat ?w - unat ?r" using rw by (simp add: unat_sub)
  have "unat ?r + unat ?n < 2 ^ 64"
    using n_le d rw unsigned_less[of ?w, where 'a=nat] by (simp add: word_le_nat_alt)
  then have rn: "unat (?r + ?n) = unat ?r + unat ?n" by (simp add: unat_add_lem[THEN iffD1])
  have le: "?r + ?n \<le> ?w" using rn n_le d rw by (simp add: word_le_nat_alt)
  have rest: "unat (?w - (?r + ?n)) = unat (?w - ?r) - unat ?n"
    using le rn d by (simp add: unat_sub)
  let ?f = "\<lambda>i. b ((unat ?r + i) mod ?L)"
  have u: "unread s = map ?f [0..<unat (?w - ?r)]" by (simp add: unread_def b)
  have front: "map (\<lambda>i. if i < unat ?n then ?f i else t i) [0..<unat ?n] = take (unat ?n) (unread s)"
    using n_le by (simp add: u take_map min_absorb2)
  have "drop (unat ?n) (unread s) = map ?f [unat ?n..<unat (?w - ?r)]"
    by (simp add: u drop_map)
  also have "\<dots> = map ?f [unat ?n..<unat ?n + (unat (?w - ?r) - unat ?n)]"
    using n_le by simp
  also have "\<dots> = map (\<lambda>i. ?f (unat ?n + i)) [0..<unat (?w - ?r) - unat ?n]"
    by (rule map_upt_shift)
  finally have rear: "drop (unat ?n) (unread s) =
      map (\<lambda>i. b ((unat ?r + unat ?n + i) mod ?L)) [0..<unat (?w - ?r) - unat ?n]"
    by (simp add: add.assoc)
  show ?thesis
    using front rear
    by (simp add: Take_ready[OF l(1) assms(2) b l(2)] unread_def b rn rest)
qed

lemma mod_distinct:
  fixes a b L :: nat
  assumes "a < b" "b - a < L"
  shows "a mod L \<noteq> b mod L"
proof
  assume "a mod L = b mod L"
  then have "b mod L = a mod L" by simp
  then have "L dvd b - a" using assms(1) by (simp add: mod_eq_dvd_iff_nat)
  moreover have "0 < b - a" using assms(1) by simp
  ultimately show False using assms(2) by (simp add: nat_dvd_not_less)
qed

lemma Put_unread:
  assumes inv: "ring_invariant s"
    and c0: "count \<noteq> 0" and cl: "count \<le> m_BufferLength s"
    and range: "unat (m_LinearBufferWritePosition s) + unat count < 2 ^ 64"
    and fits: "\<not> m_BufferLength s <
                 m_LinearBufferWritePosition s + count - m_LinearBufferReadPosition s"
    and one_run: "unat (m_LinearBufferWritePosition s mod m_BufferLength s) + unat count
                    \<le> unat (m_BufferLength s)"
  shows "\<exists>s'. Put s p count = Some (STATUS_SUCCESS, s') \<and>
           unread s' = unread s @ map p [0..<unat count] \<and>
           m_LinearBufferWritePosition s' = m_LinearBufferWritePosition s + count \<and>
           m_BufferLength s' = m_BufferLength s \<and> ring_invariant s'"
proof -
  let ?w = "m_LinearBufferWritePosition s" and ?r = "m_LinearBufferReadPosition s"
  let ?len = "m_BufferLength s"
  let ?W = "unat ?w" and ?R = "unat ?r" and ?L = "unat ?len" and ?C = "unat count"
  let ?off = "?W mod ?L"
  obtain b where b: "m_Buffer s = Some b" using inv by (auto simp: ring_invariant_def)
  have rw: "?r \<le> ?w" using inv by (simp add: ring_invariant_def)
  have RW: "?R \<le> ?W" using rw by (simp add: word_le_nat_alt)
  have len0: "?len \<noteq> 0" using c0 cl by auto
  have L0: "0 < ?L" using len0 by (simp add: unat_gt_0)
  have off: "unat (?w mod ?len) = ?off" by (simp add: unat_mod)
  have offL: "?off + ?C \<le> ?L" using one_run off by simp
  have wc: "unat (?w + count) = ?W + ?C" using range by (simp add: unat_add_lem[THEN iffD1])
  have "?r \<le> ?w + count" using wc RW by (simp add: word_le_nat_alt)
  then have un: "unat (?w + count - ?r) = ?W - ?R + ?C" using wc RW by (simp add: unat_sub)
  have room: "?W - ?R + ?C \<le> ?L" using fits un by (simp add: not_less word_le_nat_alt)
  have d: "unat (?w - ?r) = ?W - ?R" using rw by (simp add: unat_sub)
  have "?w mod ?len < ?len"
    using len0 by (simp add: word_mod_less_divisor word_neq_0_conv)
  then have "?w mod ?len \<le> ?len" by (rule less_imp_le)
  then have "unat (?len - ?w mod ?len) = ?L - ?off"
    by (simp add: unat_sub off)
  then have run1: "count \<le> ?len - ?w mod ?len"
    using offL by (simp add: word_le_nat_alt)
  let ?b' = "RtlCopyMemory b ?off p 0 ?C"
  let ?s' = "Put_latch (s\<lparr>m_Buffer := Some ?b',
      m_LinearBufferWritePosition := ?w + count\<rparr>)"
  have o: "Put_overrun s count = (STATUS_SUCCESS, s)"
    using fits by (simp add: Put_overrun_def)
  have p: "Put s p count = Some (STATUS_SUCCESS, ?s')"
    using c0 cl o run1 by (simp add: Put_def not_less[symmetric] Put_copy_result[OF b cl len0] off)
  have old: "?b' ((?R + i) mod ?L) = b ((?R + i) mod ?L)" if "i < ?W - ?R" for i
  proof -
    have "\<not> (?off \<le> (?R + i) mod ?L \<and> (?R + i) mod ?L < ?off + ?C)"
    proof
      assume a: "?off \<le> (?R + i) mod ?L \<and> (?R + i) mod ?L < ?off + ?C"
      define j where "j = (?R + i) mod ?L - ?off"
      have j: "j < ?C" "?off + j = (?R + i) mod ?L" using a unfolding j_def by linarith+
      have "(?W + j) mod ?L = (?off + j) mod ?L" by (simp add: mod_add_left_eq)
      also have "\<dots> = ?off + j" using j(1) offL by simp
      finally have e: "(?R + i) mod ?L = (?W + j) mod ?L" using j(2) by simp
      have "?R + i < ?W + j" using that by linarith
      moreover have "?W + j - (?R + i) < ?L" using that j(1) room by linarith
      ultimately have "(?R + i) mod ?L \<noteq> (?W + j) mod ?L" by (rule mod_distinct)
      then show False using e by simp
    qed
    then show ?thesis unfolding RtlCopyMemory_def by (rule if_not_P)
  qed
  have new: "?b' ((?R + (?W - ?R + j)) mod ?L) = p j" if "j < ?C" for j
  proof -
    have "?R + (?W - ?R + j) = ?W + j" using RW by simp
    moreover have "(?W + j) mod ?L = (?off + j) mod ?L" by (simp add: mod_add_left_eq)
    moreover have "(?off + j) mod ?L = ?off + j" using that offL by simp
    ultimately have "(?R + (?W - ?R + j)) mod ?L = ?off + j" by simp
    then show ?thesis using that by (simp add: RtlCopyMemory_def)
  qed
  have "unread ?s' = map (\<lambda>i. ?b' ((?R + i) mod ?L)) [0..<?W - ?R + ?C]"
    by (simp add: unread_def Put_latch_fields un)
  also have "\<dots> = map (\<lambda>i. ?b' ((?R + i) mod ?L)) [0..<?W - ?R] @
                   map (\<lambda>i. ?b' ((?R + i) mod ?L)) [?W - ?R..<?W - ?R + ?C]"
  proof -
    have "[0..<?W - ?R + ?C] = [0..<?W - ?R] @ [?W - ?R..<?W - ?R + ?C]"
      by (rule upt_add_eq_append) simp
    then show ?thesis by (simp only: map_append)
  qed
  also have "map (\<lambda>i. ?b' ((?R + i) mod ?L)) [0..<?W - ?R] = unread s"
    using old by (simp add: unread_def b d)
  also have "map (\<lambda>i. ?b' ((?R + i) mod ?L)) [?W - ?R..<?W - ?R + ?C] =
             map (\<lambda>j. ?b' ((?R + (?W - ?R + j)) mod ?L)) [0..<?C]"
    by (rule map_upt_shift)
  also have "\<dots> = map p [0..<?C]" using new by simp
  finally have u: "unread ?s' = unread s @ map p [0..<?C]" .
  have i': "ring_invariant ?s'"
    using inv range p by (rule invariant_Put)
  show ?thesis using p u i' by (simp add: Put_latch_fields)
qed

text \<open>
  As long as the bytes put since \<open>Init\<close> do not exceed the capacity in total, the
  write position stays within the storage and no copy wraps: the bytes taken are then
  the first of the bytes put, in their order, and the rest is still unread.
\<close>

lemma run_calls_put_grows:
  "run_calls s put taken cs = Some (s', put', taken') \<Longrightarrow> length put \<le> length put'"
proof (induction cs arbitrary: s put taken)
  case Nil
  then show ?case by simp
next
  case (Cons c cs)
  show ?case
  proof (cases c)
    case (CallPut pBytes count)
    with Cons.prems obtain status s1 where
      "run_calls s1 (if status = STATUS_BUFFER_TOO_SMALL then put
                     else put @ map pBytes [0..<unat count]) taken cs = Some (s', put', taken')"
      by (auto split: option.splits)
    from Cons.IH[OF this] show ?thesis by (simp split: if_splits)
  next
    case (CallTake count)
    with Cons.prems obtain s1 taken1 where
      "run_calls s1 put taken1 cs = Some (s', put', taken')"
      by (auto split: option.splits)
    from Cons.IH[OF this] show ?thesis .
  qed
qed

lemma stream_invariant_Put:
  assumes j: "stream_invariant capacity s put taken"
    and p: "Put s pBytes count = Some (status, s')"
    and bound: "length (if status = STATUS_BUFFER_TOO_SMALL then put
                        else put @ map pBytes [0..<unat count]) \<le> unat capacity"
  shows "stream_invariant capacity s'
           (if status = STATUS_BUFFER_TOO_SMALL then put else put @ map pBytes [0..<unat count])
           taken"
proof -
  let ?w = "m_LinearBufferWritePosition s" and ?r = "m_LinearBufferReadPosition s"
  have inv: "ring_invariant s" and len: "m_BufferLength s = capacity"
    and W: "unat ?w = length put" and e: "put = taken @ unread s"
    using j by (simp_all add: stream_invariant_def)
  consider "m_BufferLength s < count" | "count = 0" | "count \<noteq> 0" "count \<le> m_BufferLength s"
    by fastforce
  then show ?thesis
  proof cases
    case 1
    then show ?thesis using p j by (simp add: Put_def)
  next
    case 2
    then show ?thesis using p j by (simp add: Put_def)
  next
    case 3
    have nn: "m_Buffer s \<noteq> None" using inv by (simp add: ring_invariant_def)
    from Put_returns[OF nn 3, of pBytes] p
    have st: "status = fst (Put_overrun s count)" by auto
    then have st': "status \<noteq> STATUS_BUFFER_TOO_SMALL" by (simp add: Put_overrun_def)
    have sum: "unat ?w + unat count \<le> unat capacity" using bound st' W by simp
    have range: "unat ?w + unat count < 2 ^ 64"
      using sum unsigned_less[of capacity, where 'a=nat] by simp
    have c0: "unat count \<noteq> 0" using 3(1) by (simp add: unat_eq_0)
    have rw: "?r \<le> ?w" using inv by (simp add: ring_invariant_def)
    have wc: "unat (?w + count) = unat ?w + unat count"
      using range by (simp add: unat_add_lem[THEN iffD1])
    have "?r \<le> ?w + count" using wc rw by (simp add: word_le_nat_alt)
    then have "unat (?w + count - ?r) = unat ?w + unat count - unat ?r"
      using wc by (simp add: unat_sub)
    then have fits: "\<not> m_BufferLength s < ?w + count - ?r"
      using sum len by (simp add: not_less word_le_nat_alt)
    have "unat ?w < unat (m_BufferLength s)" using sum c0 len by simp
    then have "unat (?w mod m_BufferLength s) = unat ?w" by (simp add: unat_mod)
    then have one_run: "unat (?w mod m_BufferLength s) + unat count \<le> unat (m_BufferLength s)"
      using sum len by simp
    from Put_unread[OF inv 3 range fits one_run, of pBytes] p
    have "status = STATUS_SUCCESS" "unread s' = unread s @ map pBytes [0..<unat count]"
      "m_LinearBufferWritePosition s' = ?w + count" "m_BufferLength s' = m_BufferLength s"
      "ring_invariant s'"
      by auto
    then show ?thesis using e len W wc by (simp add: stream_invariant_def)
  qed
qed

lemma stream_invariant_Take:
  assumes j: "stream_invariant capacity s put taken"
    and t: "Take s pTarget count (Some 0) = Some (status, s', pTarget', readCount')"
  shows "stream_invariant capacity s' put
           (taken @ map pTarget' [0..<unat (case readCount' of None \<Rightarrow> 0 | Some n \<Rightarrow> n)])"
proof (cases "m_IsFilling s")
  case True
  have "m_BufferLock s" using j by (simp add: stream_invariant_def ring_invariant_def)
  then show ?thesis using True t j by (auto simp add: Take_filling)
next
  case False
  have inv: "ring_invariant s" and e: "put = taken @ unread s"
    using j by (simp_all add: stream_invariant_def)
  let ?n = "min count (m_LinearBufferWritePosition s - m_LinearBufferReadPosition s)"
  from Take_unread[OF inv False, of count pTarget "Some 0"] t
  have r: "readCount' = Some ?n" "map pTarget' [0..<unat ?n] = take (unat ?n) (unread s)"
    "unread s' = drop (unat ?n) (unread s)"
    "m_LinearBufferWritePosition s' = m_LinearBufferWritePosition s"
    "m_BufferLength s' = m_BufferLength s"
    by auto
  have "ring_invariant s'" using inv t by (rule invariant_Take)
  then show ?thesis using j r by (simp add: stream_invariant_def)
qed

lemma run_calls_invariant:
  "stream_invariant capacity s put taken \<Longrightarrow>
   run_calls s put taken cs = Some (s', put', taken') \<Longrightarrow>
   length put' \<le> unat capacity \<Longrightarrow> stream_invariant capacity s' put' taken'"
proof (induction cs arbitrary: s put taken)
  case Nil
  then show ?case by simp
next
  case (Cons c cs)
  show ?case
  proof (cases c)
    case (CallPut pBytes count)
    with Cons.prems(2) obtain status s1 where
      p: "Put s pBytes count = Some (status, s1)" and
      rest: "run_calls s1 (if status = STATUS_BUFFER_TOO_SMALL then put
                     else put @ map pBytes [0..<unat count]) taken cs = Some (s', put', taken')"
      by (auto split: option.splits)
    have "length (if status = STATUS_BUFFER_TOO_SMALL then put
                     else put @ map pBytes [0..<unat count]) \<le> unat capacity"
      using run_calls_put_grows[OF rest] Cons.prems(3) by linarith
    from stream_invariant_Put[OF Cons.prems(1) p this]
    show ?thesis using rest Cons.prems(3) by (rule Cons.IH)
  next
    case (CallTake count)
    with Cons.prems(2) obtain status s1 pTarget' readCount' where
      t: "Take s (\<lambda>_. 0) count (Some 0) = Some (status, s1, pTarget', readCount')" and
      rest: "run_calls s1 put
            (taken @ map pTarget' [0..<unat (case readCount' of None \<Rightarrow> 0 | Some n \<Rightarrow> n)])
            cs = Some (s', put', taken')"
      by (auto split: option.splits)
    from stream_invariant_Take[OF Cons.prems(1) t]
    show ?thesis using rest Cons.prems(3) by (rule Cons.IH)
  qed
qed

lemma FIFO_within_capacity:
  assumes "Init s00 capacity lock_alloc pool_alloc = (STATUS_SUCCESS, s0, calls)"
    and "run_calls s0 [] [] cs = Some (s, put, taken)"
    and "length put \<le> unat capacity"
  shows "put = taken @ unread s"
proof -
  from Init_success[OF assms(1)]
  have "stream_invariant capacity s0 [] []"
    using invariant_Init[OF assms(1)] by (auto simp add: stream_invariant_def unread_def)
  from run_calls_invariant[OF this assms(2,3)]
  show ?thesis by (simp add: stream_invariant_def)
qed

lemma FIFO_within_capacity_example:
  "\<exists>s0 s.
     Init (RingBuffer_ctor False) 4 True (Some (bytes [])) =
       (STATUS_SUCCESS, s0, [NewSpinLock, ExAllocatePoolWithTag 4]) \<and>
     run_calls s0 [] [] [CallPut (bytes [1, 2, 3]) 3, CallTake 2, CallPut (bytes [4]) 1] =
       Some (s, [1, 2, 3, 4], [1, 2]) \<and>
     length [1, 2, 3, 4 :: BYTE] \<le> unat (4 :: 64 word) \<and>
     unread s = [3, 4]"
proof -
  let ?s0 = "\<lparr>m_BufferLock = True, m_Buffer = Some (bytes []), m_BufferLength = 4,
      m_IsFilling = True, m_LinearBufferReadPosition = 0, m_LinearBufferWritePosition = 0\<rparr>"
  have i: "Init (RingBuffer_ctor False) 4 True (Some (bytes [])) =
       (STATUS_SUCCESS, ?s0, [NewSpinLock, ExAllocatePoolWithTag 4])"
    by (rule Init_ctor)
  have "\<exists>s. run_calls ?s0 [] [] [CallPut (bytes [1, 2, 3]) 3, CallTake 2, CallPut (bytes [4]) 1] =
       Some (s, [1, 2, 3, 4], [1, 2])"
    by (simp add: run_Put run_Take RtlCopyMemory_def bytes_def word_le_nat_alt upt_conv_Cons)
  then obtain s where r: "run_calls ?s0 [] []
      [CallPut (bytes [1, 2, 3]) 3, CallTake 2, CallPut (bytes [4]) 1] = Some (s, [1, 2, 3, 4], [1, 2])"
    by blast
  from FIFO_within_capacity[OF i r] have "[1, 2, 3, 4] = [1, 2] @ unread s" by simp
  then have "unread s = [3, 4]" by simp
  then show ?thesis using i r by - (rule exI[of _ ?s0], rule exI[of _ s], simp)
qed

subsection \<open>A \<open>Put\<close> that crosses the end of the storage\<close>

text \<open>
  Claim C1.  Bytes are to come out of \<open>Take\<close> in the order \<open>Put\<close> received them,
  also when a copy crosses the end of the storage in two runs.  The run below stays
  within the claim's bounds (capacity 4, no \<open>Put\<close> above the capacity, never more
  than 3 bytes unread, each \<open>Take\<close> made with 3 unread bytes, above half the
  capacity) and its second \<open>Put\<close> starts at offset 3, so it is copied in two runs.
  Both runs of the copy loop read from the start of \<open>pBytes\<close>: the bytes 4, 5, 6 are
  stored as 4, 4, 5, and that is what \<open>Take\<close> returns.  \<open>Take\<close> advances its target
  by \<open>bytesRead\<close>; \<open>Put\<close> does not advance its source by \<open>bytesWritten\<close>.
\<close>

theorem Put_wrap_repeats_source:
  "\<exists>s0 s1 s2 t2 s3 s4 t4.
     Init (RingBuffer_ctor False) 4 True (Some (bytes [])) =
       (STATUS_SUCCESS, s0, [NewSpinLock, ExAllocatePoolWithTag 4]) \<and>
     Put s0 (bytes [1, 2, 3]) 3 = Some (STATUS_SUCCESS, s1) \<and>
     Take s1 (bytes []) 3 None = Some (STATUS_SUCCESS, s2, t2, None) \<and>
     map t2 [0, 1, 2] = [1, 2, 3] \<and>
     Put s2 (bytes [4, 5, 6]) 3 = Some (STATUS_SUCCESS, s3) \<and>
     Take s3 (bytes []) 3 None = Some (STATUS_SUCCESS, s4, t4, None) \<and>
     map t4 [0, 1, 2] = [4, 4, 5]"
  by (simp add: Init_ctor run_Put run_Take RtlCopyMemory_def bytes_def word_le_nat_alt)

text \<open>
  Claim C2.  A \<open>Put\<close> that overflows is to advance the read position to
  \<open>writePos + count - capacity + 1\<close>, still copy all \<open>count\<close> bytes, advance the
  write position by \<open>count\<close> and return the overflow status, leaving
  \<open>capacity - 1\<close> unread bytes.  Positions and status are as claimed
  (\<open>Put_overflow_positions\<close>, \<open>overflow_example_100\<close>), but when the overflowing
  \<open>Put\<close> also crosses the end of the storage not all of its bytes are copied: with
  capacity 4 and 3 bytes unread, putting 4, 5, 6 leaves the storage as 4, 5, 3, 4; the
  byte 6 is nowhere, and the 3 readable bytes are 4, 4, 5.
\<close>

theorem Put_overflow_wrap_loses_byte:
  "\<exists>s0 s1 s2 b s3 t3.
     Init (RingBuffer_ctor False) 4 True (Some (bytes [])) =
       (STATUS_SUCCESS, s0, [NewSpinLock, ExAllocatePoolWithTag 4]) \<and>
     Put s0 (bytes [1, 2, 3]) 3 = Some (STATUS_SUCCESS, s1) \<and>
     Put s1 (bytes [4, 5, 6]) 3 = Some (STATUS_BUFFER_OVERFLOW, s2) \<and>
     m_LinearBufferReadPosition s2 = 3 \<and> m_LinearBufferWritePosition s2 = 6 \<and>
     m_Buffer s2 = Some b \<and> map b [0, 1, 2, 3] = [4, 5, 3, 4] \<and>
     Take s2 (bytes []) 3 None = Some (STATUS_SUCCESS, s3, t3, None) \<and>
     map t3 [0, 1, 2] = [4, 4, 5]"
  by (simp add: Init_ctor run_Put run_Take RtlCopyMemory_def bytes_def word_le_nat_alt)

subsection \<open>A re-initialisation that fails\<close>

lemma Take_loop_NULL:
  "count \<noteq> 0 \<Longrightarrow> Take_loop len None pTarget off count bytesRead = None"
  by (subst Take_loop.simps) (simp add: word_neq_0_conv)

text \<open>
  Claim C8.  An \<open>Init\<close> whose storage allocation fails is to return the
  out-of-resources status and leave the buffer uninitialised: no storage, capacity
  unset; a successful \<open>Init\<close> frees storage held before, sets both positions to 0
  and the filling flag (\<open>Init_outcomes\<close> shows the successful case and the status).
  When the failing call is a re-initialisation, the buffer is not left uninitialised.
  \<open>Init\<close> frees the old storage and clears \<open>m_Buffer\<close> (lines 42 and 43) but
  leaves \<open>m_BufferLength\<close>, the positions and the flag as they were, where the
  destructor resets \<open>m_BufferLength\<close> together with \<open>m_Buffer\<close> (lines 17 to 19).
  After \<open>Init\<close> with capacity 4 and a \<open>Put\<close> of 3 bytes, an \<open>Init\<close> with
  capacity 8 whose allocation fails returns \<open>STATUS_INSUFFICIENT_RESOURCES\<close> with
  storage \<open>NULL\<close> but capacity still 4, write position 3 and the buffer not filling:
  \<open>GetSize\<close> is 4, \<open>GetAvailableBytes\<close> is 3, and \<open>Put\<close> of one byte,
  \<open>Take\<close> and \<open>Clear\<close> all run into the \<open>NULL\<close> storage.  The destructor,
  run on the same buffer instead, leaves capacity 0.
\<close>

theorem Init_failed_reinit_keeps_capacity:
  "\<exists>s0 s1 s2 s3.
     Init (RingBuffer_ctor False) 4 True (Some (bytes [])) =
       (STATUS_SUCCESS, s0, [NewSpinLock, ExAllocatePoolWithTag 4]) \<and>
     Put s0 (bytes [1, 2, 3]) 3 = Some (STATUS_SUCCESS, s1) \<and>
     Init s1 8 False None =
       (STATUS_INSUFFICIENT_RESOURCES, s2, [ExFreePoolWithTag, ExAllocatePoolWithTag 8]) \<and>
     m_Buffer s2 = None \<and> m_BufferLength s2 = 4 \<and> GetSize s2 = 4 \<and>
     m_LinearBufferReadPosition s2 = 0 \<and> m_LinearBufferWritePosition s2 = 3 \<and>
     \<not> m_IsFilling s2 \<and> GetAvailableBytes s2 = 3 \<and>
     Put s2 (bytes [9]) 1 = None \<and>
     Take s2 (bytes []) 1 None = None \<and>
     Clear s2 = None \<and>
     RingBuffer_dtor s1 = Some s3 \<and> m_Buffer s3 = None \<and> m_BufferLength s3 = 0"
  by (simp add: Init_ctor run_Put Take_def Take_loop_NULL Clear_def Init_def GetSize_def
      GetAvailableBytes_def RingBuffer_dtor_def RingBuffer_ctor_def word_le_nat_alt)

subsection \<open>\<open>Put\<close> and the lock\<close>

text \<open>
  Claim C10.  Every operation is to hold the lock for its whole read-modify-write of
  positions, flag and storage, so that no operation sees another one half done.
  \<open>Take\<close> and \<open>Clear\<close> acquire the lock first, and therefore do not return when the
  lock pointer is \<open>NULL\<close>; \<open>Put\<close> has no acquire and no release, and returns the
  same result with or without a lock.  Nothing therefore keeps a \<open>Take\<close> of the other
  context from running between two statements of \<open>Put\<close>.  With capacity 100 and 100
  bytes unread, a \<open>Put\<close> of 10 bytes first moves the read position to 11 (\<open>mid\<close>)
  and later the write position to 110.  A \<open>Take\<close> of up to 200 bytes gets 100 bytes
  before that \<open>Put\<close>, 99 bytes after it, and 89 bytes in the state \<open>mid\<close>, a result
  that no order of the two calls gives.
\<close>

theorem Put_takes_no_lock:
  "\<exists>s0 s1 mid s2 a b c ta tb tc.
     Init (RingBuffer_ctor False) 100 True (Some (bytes [])) =
       (STATUS_SUCCESS, s0, [NewSpinLock, ExAllocatePoolWithTag 100]) \<and>
     Put s0 (bytes []) 100 = Some (STATUS_SUCCESS, s1) \<and>
     Put_overrun s1 10 = (STATUS_BUFFER_OVERFLOW, mid) \<and>
     Put_copy mid (bytes []) 10 = Some s2 \<and>
     Put s1 (bytes []) 10 = Some (STATUS_BUFFER_OVERFLOW, s2) \<and>
     Take s1 (bytes []) 200 (Some 0) = Some (STATUS_SUCCESS, a, ta, Some 100) \<and>
     Take s2 (bytes []) 200 (Some 0) = Some (STATUS_SUCCESS, b, tb, Some 99) \<and>
     Take mid (bytes []) 200 (Some 0) = Some (STATUS_SUCCESS, c, tc, Some 89) \<and>
     Put (s1\<lparr>m_BufferLock := False\<rparr>) (bytes []) 10 =
       Some (STATUS_BUFFER_OVERFLOW, s2\<lparr>m_BufferLock := False\<rparr>) \<and>
     Take (s1\<lparr>m_BufferLock := False\<rparr>) (bytes []) 200 (Some 0) = None \<and>
     Clear (s1\<lparr>m_BufferLock := False\<rparr>) = None"
  by (simp add: Init_ctor run_Put run_Take Clear_def word_le_nat_alt)

end
